theory Spec2Isabelle
  imports Main "HOL-Library.Product_Lexorder"
begin

section \<open>Data model\<close>

text \<open>
  A board cell is the Python tuple \<open>(i, j)\<close> of two unbounded integers. A \<open>Sentence\<close>
  object carries a set of cells and an integer count; its \<open>__eq__\<close> compares exactly
  these two fields, so Python's \<open>==\<close>, \<open>!=\<close> and \<open>in\<close> on sentences are HOL
  equality and list membership on the record. A Python set is finite; a HOL set need
  not be, so the theorems that count or enumerate a set say that it is finite.
\<close>

type_synonym cell = "int \<times> int"

record sentence =
  cells :: "cell set"
  count :: int

record agent =
  height :: int
  width :: int
  moves_made :: "cell set"
  mines :: "cell set"
  safes :: "cell set"
  knowledge :: "sentence list"

text \<open>
  Every \<open>assert\<close> of \<open>add_knowledge\<close> is one constructor, in the order of the source
  lines 237, 238, 270, 280, 297, 298 and 307.
\<close>

datatype error =
    AssertRowIs8
  | AssertColIs8
  | AssertNewMinesEmpty
  | AssertNewSafesEmpty
  | AssertSentence1Empty
  | AssertSentence2Empty
  | AssertNewSentenceEmpty

section \<open>Minesweeper: the board\<close>

text \<open>
  The two nested \<open>range(i-1, i+2)\<close>, \<open>range(j-1, j+2)\<close> loops of
  \<open>nearby_mines\<close> and of \<open>add_knowledge\<close> visit the nine positions around a cell
  row by row.
\<close>

definition neighbor_range :: "cell \<Rightarrow> cell list" where
  "neighbor_range c =
     concat (map (\<lambda>i. map (\<lambda>j. (i, j)) [snd c - 1 .. snd c + 1]) [fst c - 1 .. fst c + 1])"

text \<open>
  \<open>Minesweeper.nearby_mines\<close> (lines 55 to 78). The board is given by its height, its
  width and the set of cells \<open>(i, j)\<close> with \<open>self.board[i][j]\<close> true.
\<close>

definition nearby_step :: "int \<Rightarrow> int \<Rightarrow> cell set \<Rightarrow> cell \<Rightarrow> cell \<Rightarrow> int \<Rightarrow> int" where
  "nearby_step h w board cell c n =
     (if c = cell then n
      else if 0 \<le> fst c \<and> fst c < h \<and> 0 \<le> snd c \<and> snd c < w then
        (if c \<in> board then n + 1 else n)
      else n)"

definition nearby_mines :: "int \<Rightarrow> int \<Rightarrow> cell set \<Rightarrow> cell \<Rightarrow> int" where
  "nearby_mines h w board cell = fold (nearby_step h w board cell) (neighbor_range cell) 0"

section \<open>Sentence\<close>

text \<open>
  \<open>known_mines\<close> (lines 104 to 112) and \<open>known_safes\<close> (lines 114 to 122) return
  the set \<open>self.cells\<close> or \<open>None\<close>. \<open>Sentence.mark_mine\<close> and
  \<open>Sentence.mark_safe\<close> (lines 124 to 144) change the sentence in place; they carry the
  class name here, since the agent has methods of the same names.
\<close>

definition known_mines :: "sentence \<Rightarrow> cell set option" where
  "known_mines s = (if int (card (cells s)) = count s then Some (cells s) else None)"

definition known_safes :: "sentence \<Rightarrow> cell set option" where
  "known_safes s = (if count s = 0 then Some (cells s) else None)"

definition Sentence_mark_mine :: "cell \<Rightarrow> sentence \<Rightarrow> sentence" where
  "Sentence_mark_mine c s =
     (if c \<in> cells s then s\<lparr>cells := cells s - {c}, count := count s - 1\<rparr> else s)"

definition Sentence_mark_safe :: "cell \<Rightarrow> sentence \<Rightarrow> sentence" where
  "Sentence_mark_safe c s =
     (if c \<in> cells s then s\<lparr>cells := cells s - {c}\<rparr> else s)"

section \<open>MinesweeperAI\<close>

text \<open>
  The constructor (lines 152 to 166), and \<open>mark_mine\<close> and \<open>mark_safe\<close> (lines 168
  to 184), which update every sentence of the knowledge base.
\<close>

definition MinesweeperAI :: "int \<Rightarrow> int \<Rightarrow> agent" where
  "MinesweeperAI h w =
     \<lparr>height = h, width = w, moves_made = {}, mines = {}, safes = {}, knowledge = []\<rparr>"

definition mark_mine :: "cell \<Rightarrow> agent \<Rightarrow> agent" where
  "mark_mine c ag =
     ag\<lparr>mines := insert c (mines ag),
        knowledge := map (Sentence_mark_mine c) (knowledge ag)\<rparr>"

definition mark_safe :: "cell \<Rightarrow> agent \<Rightarrow> agent" where
  "mark_safe c ag =
     ag\<lparr>safes := insert c (safes ag),
        knowledge := map (Sentence_mark_safe c) (knowledge ag)\<rparr>"

subsection \<open>Step 3 of \<open>add_knowledge\<close>: the neighbour sentence\<close>

text \<open>
  One pass of the loop body (lines 225 to 240) for the position \<open>c\<close>; the accumulator is
  \<open>neighboring_cells\<close> and the local \<open>count\<close>. The bounds test compares the column with
  \<open>self.height\<close>, as line 236 does.
\<close>

definition neighbor_step :: "agent \<Rightarrow> cell \<Rightarrow> cell \<Rightarrow> cell set \<times> int \<Rightarrow> error + cell set \<times> int" where
  "neighbor_step ag cell c acc =
     (if c = cell then Inr acc
      else if c \<in> safes ag then Inr acc
      else if c \<in> mines ag then Inr (fst acc, snd acc - 1)
      else if 0 \<le> fst c \<and> fst c < height ag \<and> 0 \<le> snd c \<and> snd c < height ag then
        (if fst c = 8 then Inl AssertRowIs8
         else if snd c = 8 then Inl AssertColIs8
         else Inr (insert c (fst acc), snd acc))
      else Inr acc)"

fun neighbor_loop :: "agent \<Rightarrow> cell \<Rightarrow> cell list \<Rightarrow> cell set \<times> int \<Rightarrow> error + cell set \<times> int" where
  "neighbor_loop ag cell [] acc = Inr acc"
| "neighbor_loop ag cell (c # cs) acc =
     (case neighbor_step ag cell c acc of
        Inl e \<Rightarrow> Inl e
      | Inr acc' \<Rightarrow> neighbor_loop ag cell cs acc')"

definition new_sentence :: "agent \<Rightarrow> cell set \<times> int \<Rightarrow> agent" where
  "new_sentence ag acc =
     (if fst acc \<noteq> {}
      then ag\<lparr>knowledge := knowledge ag @ [\<lparr>cells = fst acc, count = snd acc\<rparr>]\<rparr>
      else ag)"

subsection \<open>The closure loop: marking cells\<close>

text \<open>
  Python leaves the iteration order of a set unspecified. The model visits a copied set
  in ascending order; \<open>mark_mine\<close> and \<open>mark_safe\<close> on different cells commute, so
  the order has no influence on the result (lemmas \<open>mine_loop_any_order\<close> and
  \<open>safe_loop_any_order\<close> below).
\<close>

definition set_iter :: "cell set \<Rightarrow> cell list" where
  "set_iter A = sorted_list_of_set A"

text \<open>Lines 272 to 278 and 282 to 287: the state is the agent and the flag \<open>changed\<close>.\<close>

definition mine_step :: "cell \<Rightarrow> agent \<times> bool \<Rightarrow> agent \<times> bool" where
  "mine_step c st = (if c \<notin> mines (fst st) then (mark_mine c (fst st), True) else st)"

definition safe_step :: "cell \<Rightarrow> agent \<times> bool \<Rightarrow> agent \<times> bool" where
  "safe_step c st = (if c \<notin> safes (fst st) then (mark_safe c (fst st), True) else st)"

text \<open>
  Lines 261 to 287 for the sentence at index \<open>i\<close> of \<open>self.knowledge\<close>.
  \<open>known_mines\<close> and \<open>known_safes\<close> return the sentence's own set object, and both are
  queried before any cell is marked: \<open>new_safes\<close>, when it is not \<open>None\<close>, therefore
  denotes the cells the sentence holds after the mine loop has run.
\<close>

definition deduce_sentence :: "nat \<Rightarrow> agent \<times> bool \<Rightarrow> error + agent \<times> bool" where
  "deduce_sentence i st =
     (let s = knowledge (fst st) ! i in
      if cells s = {} then Inr st
      else
        let new_mines = known_mines s;
            new_safes = known_safes s
        in case (case new_mines of
                   None \<Rightarrow> Inr st
                 | Some m \<Rightarrow> if m = {} then Inl AssertNewMinesEmpty
                             else Inr (fold mine_step (set_iter m) st)) of
             Inl e \<Rightarrow> Inl e
           | Inr st1 \<Rightarrow>
               (case new_safes of
                  None \<Rightarrow> Inr st1
                | Some _ \<Rightarrow>
                    let cur = cells (knowledge (fst st1) ! i)
                    in if cur = {} then Inl AssertNewSafesEmpty
                       else Inr (fold safe_step (set_iter cur) st1)))"

lemma length_fold_mine_step:
  "length (knowledge (fst (fold mine_step cs st))) = length (knowledge (fst st))"
  by (induction cs arbitrary: st) (simp_all add: mine_step_def mark_mine_def)

lemma length_fold_safe_step:
  "length (knowledge (fst (fold safe_step cs st))) = length (knowledge (fst st))"
  by (induction cs arbitrary: st) (simp_all add: safe_step_def mark_safe_def)

lemma length_deduce_sentence:
  "deduce_sentence i st = Inr st' \<Longrightarrow> length (knowledge (fst st')) = length (knowledge (fst st))"
  by (auto simp: deduce_sentence_def Let_def length_fold_mine_step length_fold_safe_step
      split: if_splits option.splits sum.splits)

text \<open>
  \<open>for sentence in self.knowledge\<close> (line 260): the list iterator reads index \<open>i\<close>
  as long as it is below the current length.
\<close>

function deduce_loop :: "nat \<Rightarrow> agent \<times> bool \<Rightarrow> error + agent \<times> bool" where
  "deduce_loop i st =
     (if i < length (knowledge (fst st)) then
        (case deduce_sentence i st of
           Inl e \<Rightarrow> Inl e
         | Inr st' \<Rightarrow> deduce_loop (Suc i) st')
      else Inr st)"
  by pat_completeness auto
termination
  by (relation "measure (\<lambda>(i, st). length (knowledge (fst st)) - i)")
     (auto dest: length_deduce_sentence)

declare deduce_loop.simps [simp del]

subsection \<open>The closure loop: subset resolution\<close>

text \<open>
  Lines 291 to 313 for one pair; \<open>resolve\<close> is the sentence built in lines 301 to
  303. No sentence is mutated while the two loops run, so
  \<open>sentence_1\<close> and \<open>sentence_2\<close> are passed by value; the state is the list
  \<open>self.knowledge\<close> and the flag \<open>changed\<close>.
\<close>

definition resolve :: "sentence \<Rightarrow> sentence \<Rightarrow> sentence" where
  "resolve s1 s2 = \<lparr>cells = cells s2 - cells s1, count = count s2 - count s1\<rparr>"

definition subset_pair :: "sentence \<Rightarrow> sentence \<Rightarrow> sentence list \<times> bool \<Rightarrow> error + sentence list \<times> bool" where
  "subset_pair s1 s2 st =
     (if s1 = s2 then Inr st
      else if cells s1 = {} \<or> cells s2 = {} then Inr st
      else if cells s1 \<subseteq> cells s2 then
        (if cells s1 = {} then Inl AssertSentence1Empty
         else if cells s2 = {} then Inl AssertSentence2Empty
         else
           let new = resolve s1 s2
           in if new \<notin> set (fst st) then
                (if cells new = {} then Inl AssertNewSentenceEmpty
                 else Inr (fst st @ [new], True))
              else Inr st)
      else Inr st)"

lemma subset_pair_cases:
  assumes "subset_pair s1 s2 (kb, ch) = Inr (kb', ch')"
  shows "(kb' = kb \<and> ch' = ch) \<or>
         (kb' = kb @ [resolve s1 s2] \<and> resolve s1 s2 \<notin> set kb \<and> s1 \<noteq> s2 \<and>
          cells s1 \<noteq> {} \<and> cells s1 \<subseteq> cells s2 \<and> cells (resolve s1 s2) \<noteq> {} \<and> ch')"
  using assms by (auto simp: subset_pair_def Let_def split: if_splits)

definition weight :: "sentence \<Rightarrow> sentence \<Rightarrow> nat" where
  "weight s1 s2 = (if cells s1 \<noteq> {} \<and> cells s1 \<subseteq> cells s2 then 2 else 1)"

lemma weight_resolve: "cells s1 \<noteq> {} \<Longrightarrow> weight s1 (resolve s1 s2) = 1"
  by (auto simp: weight_def resolve_def)

text \<open>
  The inner loop (line 290) over the growing list: a sentence appended by the body is
  visited later in the same loop.
\<close>

function subset_inner :: "sentence \<Rightarrow> nat \<Rightarrow> sentence list \<times> bool \<Rightarrow> error + sentence list \<times> bool" where
  "subset_inner s1 j st =
     (if j < length (fst st) then
        (case subset_pair s1 (fst st ! j) st of
           Inl e \<Rightarrow> Inl e
         | Inr st' \<Rightarrow> subset_inner s1 (Suc j) st')
      else Inr st)"
  by pat_completeness auto
termination
proof (relation "measure (\<lambda>(s1, j, st). sum_list (map (weight s1) (drop j (fst st))))", goal_cases)
  case 1
  show ?case by simp
next
  case (2 s1 j st st')
  obtain kb ch where st: "st = (kb, ch)" by (cases st)
  obtain kb' ch' where st': "st' = (kb', ch')" by (cases st')
  from 2 st have j: "j < length kb" by simp
  then have d: "drop j kb = kb ! j # drop (Suc j) kb"
    by (simp add: Cons_nth_drop_Suc)
  from 2(2) st st' have "subset_pair s1 (kb ! j) (kb, ch) = Inr (kb', ch')" by simp
  from subset_pair_cases[OF this] show ?case
  proof
    assume "kb' = kb \<and> ch' = ch"
    then show ?thesis using st st' d by (simp add: weight_def)
  next
    assume a: "kb' = kb @ [resolve s1 (kb ! j)] \<and> resolve s1 (kb ! j) \<notin> set kb \<and> s1 \<noteq> kb ! j \<and>
          cells s1 \<noteq> {} \<and> cells s1 \<subseteq> cells (kb ! j) \<and> cells (resolve s1 (kb ! j)) \<noteq> {} \<and> ch'"
    then have "weight s1 (kb ! j) = 2" by (simp add: weight_def)
    then show ?thesis using st st' d a j by (simp add: weight_resolve)
  qed
qed

declare subset_inner.simps [simp del]

text \<open>The outer loop (line 289), over the same growing list.\<close>

partial_function (option) subset_outer :: "nat \<Rightarrow> sentence list \<times> bool \<Rightarrow> (error + sentence list \<times> bool) option" where
  "subset_outer i st =
     (if i < length (fst st) then
        (case subset_inner (fst st ! i) 0 st of
           Inl e \<Rightarrow> Some (Inl e)
         | Inr st' \<Rightarrow> subset_outer (Suc i) st')
      else Some (Inr st))"

declare subset_outer.simps [code]

subsection \<open>The closure loop and \<open>add_knowledge\<close>\<close>

definition empty_sentence :: sentence where
  "empty_sentence = \<lparr>cells = {}, count = 0\<rparr>"

text \<open>
  The \<open>while changed\<close> loop of lines 254 to 317. The test \<open>if changed\<close> of line 256
  repeats the loop condition; the two subset loops and the filter of line 317 follow it
  in the loop body.
\<close>

partial_function (option) closure :: "agent \<Rightarrow> bool \<Rightarrow> (error + agent) option" where
  "closure ag changed =
     (if changed then
        (case deduce_loop 0 (ag, False) of
           Inl e \<Rightarrow> Some (Inl e)
         | Inr st1 \<Rightarrow>
             (case subset_outer 0 (knowledge (fst st1), snd st1) of
                None \<Rightarrow> None
              | Some (Inl e) \<Rightarrow> Some (Inl e)
              | Some (Inr st2) \<Rightarrow>
                  closure ((fst st1)\<lparr>knowledge := filter (\<lambda>s. s \<noteq> empty_sentence) (fst st2)\<rparr>) (snd st2)))
      else Some (Inr ag))"

declare closure.simps [code]

definition add_knowledge :: "agent \<Rightarrow> cell \<Rightarrow> int \<Rightarrow> (error + agent) option" where
  "add_knowledge ag cell cnt =
     (let ag1 = ag\<lparr>moves_made := insert cell (moves_made ag)\<rparr>;
          ag2 = mark_safe cell ag1
      in case neighbor_loop ag2 cell (neighbor_range cell) ({}, cnt) of
           Inl e \<Rightarrow> Some (Inl e)
         | Inr acc \<Rightarrow> closure (new_sentence ag2 acc) True)"

subsection \<open>\<open>make_safe_move\<close>\<close>

text \<open>
  Lines 348 to 355. \<open>random.choice\<close> reads the list at a random index below its
  length; the random draw is the parameter \<open>r\<close>, reduced below the length. The
  function leaves the agent as it is, which the returned pair shows.
\<close>

definition make_safe_move :: "nat \<Rightarrow> agent \<Rightarrow> cell option \<times> agent" where
  "make_safe_move r ag =
     (let safes' = safes ag - moves_made ag
      in if safes' \<noteq> {}
         then (let l = set_iter safes' in (Some (l ! (r mod length l)), ag))
         else (None, ag))"

text \<open>Two calls of \<open>add_knowledge\<close> in a row; a failure of the first ends the run.\<close>

definition add_knowledge_twice ::
  "agent \<Rightarrow> cell \<Rightarrow> int \<Rightarrow> cell \<Rightarrow> int \<Rightarrow> (error + agent) option" where
  "add_knowledge_twice ag c1 n1 c2 n2 =
     (case add_knowledge ag c1 n1 of
        Some (Inr ag') \<Rightarrow> add_knowledge ag' c2 n2
      | r \<Rightarrow> r)"

section \<open>Notions used in the proofs\<close>

text \<open>The assertions inside the closure loop (lines 270, 280 and 307).\<close>

definition closure_errors :: "error set" where
  "closure_errors = {AssertNewMinesEmpty, AssertNewSafesEmpty, AssertNewSentenceEmpty}"

text \<open>
  The pairs that pass the tests of lines 291 to 295: two different sentences, both
  with cells, the cells of the first among those of the second.
\<close>

definition eligible :: "sentence \<Rightarrow> sentence \<Rightarrow> bool" where
  "eligible s1 s2 \<longleftrightarrow> s1 \<noteq> s2 \<and> cells s1 \<noteq> {} \<and> cells s2 \<noteq> {} \<and> cells s1 \<subseteq> cells s2"

text \<open>
  A knowledge base that holds the resolved sentence of every pair in it that passes
  the tests.
\<close>

definition resolved :: "sentence list \<Rightarrow> bool" where
  "resolved kb \<longleftrightarrow> (\<forall>A\<in>set kb. \<forall>B\<in>set kb. eligible A B \<longrightarrow> resolve A B \<in> set kb)"

text \<open>All cells that occur in the sentences of a knowledge base.\<close>

definition cells_of :: "sentence list \<Rightarrow> cell set" where
  "cells_of kb = (\<Union>s\<in>set kb. cells s)"

text \<open>
  A list of sentences appended by the subset loops: new ones, each once, each with
  cells, and these among the cells the knowledge base has already.
\<close>

definition grows :: "sentence list \<Rightarrow> sentence list \<Rightarrow> bool" where
  "grows kb ext \<longleftrightarrow> distinct ext \<and> set ext \<inter> set kb = {} \<and>
     (\<forall>x\<in>set ext. cells x \<noteq> {} \<and> cells x \<subseteq> cells_of kb)"

text \<open>What one inner loop for the sentence \<open>s1\<close> appends.\<close>

definition inner_ext :: "sentence \<Rightarrow> sentence list \<Rightarrow> sentence list \<Rightarrow> bool" where
  "inner_ext s1 kb ext \<longleftrightarrow>
     distinct ext \<and> set ext \<inter> set kb = {} \<and>
     (\<forall>x\<in>set ext. cells x \<noteq> {} \<and> cells x \<subseteq> cells_of kb \<and>
        (\<exists>b\<in>set kb \<union> set ext. eligible s1 b \<and> x = resolve s1 b))"

text \<open>
  What the outer loop started at index \<open>i\<close> has done when it returns: the pairs
  it has visited have their resolved sentence in the list.
\<close>

definition outer_post :: "nat \<Rightarrow> sentence list \<Rightarrow> bool \<Rightarrow> sentence list \<Rightarrow> bool \<Rightarrow> bool" where
  "outer_post i kb ch kb' ch' \<longleftrightarrow>
     (\<exists>ext. kb' = kb @ ext \<and> grows kb ext \<and>
        (\<forall>x\<in>set ext. \<exists>a\<in>set kb'. \<exists>b\<in>set kb'. eligible a b \<and> x = resolve a b) \<and>
        ch' = (ch \<or> ext \<noteq> [])) \<and>
     (\<forall>a b. i \<le> a \<and> a < length kb' \<and> b < length kb' \<and> (b \<le> a \<or> b < length kb) \<longrightarrow>
        eligible (kb' ! a) (kb' ! b) \<longrightarrow> resolve (kb' ! a) (kb' ! b) \<in> set kb')"

text \<open>
  The counts of the sentences without cells, and the counts of the sentences over a
  given set of cells.
\<close>

definition empty_counts :: "sentence list \<Rightarrow> int set" where
  "empty_counts kb = count ` {s \<in> set kb. cells s = {}}"

definition counts_on :: "sentence list \<Rightarrow> cell set \<Rightarrow> int set" where
  "counts_on kb S = count ` {s \<in> set kb. cells s = S}"

text \<open>
  The measure of the outer loop. A pending sentence is \<open>bad\<close> when another sentence
  over the same cells makes its inner loop stop at the assertion of line 307; without a
  bad sentence, every set of cells has room for \<open>cap\<close> counts.
\<close>

definition cap :: "sentence list \<Rightarrow> nat" where
  "cap kb = Suc (card (empty_counts kb))"

definition slots :: "sentence list \<Rightarrow> nat" where
  "slots kb = (\<Sum>S\<in>Pow (cells_of kb). cap kb - card (counts_on kb S))"

definition bad :: "sentence list \<Rightarrow> nat \<Rightarrow> bool" where
  "bad kb k \<longleftrightarrow>
     (\<exists>b\<in>set kb. cells b = cells (kb ! k) \<and> cells b \<noteq> {} \<and> b \<noteq> kb ! k \<and>
        resolve (kb ! k) b \<notin> set kb)"

definition doomed :: "sentence list \<Rightarrow> nat \<Rightarrow> bool" where
  "doomed kb i \<longleftrightarrow> (\<exists>k. i \<le> k \<and> k < length kb \<and> bad kb k)"

definition doom_index :: "sentence list \<Rightarrow> nat \<Rightarrow> nat" where
  "doom_index kb i = (LEAST k. i \<le> k \<and> k < length kb \<and> bad kb k)"

definition outer_measure :: "sentence list \<times> nat \<Rightarrow> nat \<times> nat" where
  "outer_measure p =
     (if doomed (fst p) (snd p) then (0, Suc (doom_index (fst p) (snd p)) - snd p)
      else (Suc (slots (fst p)), length (fst p) - snd p))"

definition outer_rel :: "((sentence list \<times> nat) \<times> (sentence list \<times> nat)) set" where
  "outer_rel = inv_image (less_than <*lex*> less_than) outer_measure"

text \<open>
  The marking loops change nothing, or they set the flag and take a cell out of the
  sentences.
\<close>

definition shrinks :: "agent \<times> bool \<Rightarrow> agent \<times> bool \<Rightarrow> bool" where
  "shrinks st st' \<longleftrightarrow>
     cells_of (knowledge (fst st')) \<subseteq> cells_of (knowledge (fst st)) \<and>
     (st' = st \<or> (snd st' \<and> cells_of (knowledge (fst st')) \<subset> cells_of (knowledge (fst st))))"

text \<open>
  The sentences with cells, and their number after a pass that has returned: at most
  \<open>bound\<close>.
\<close>

definition live :: "sentence list \<Rightarrow> sentence set" where
  "live kb = {s \<in> set kb. cells s \<noteq> {}}"

definition half_closed :: "sentence list \<Rightarrow> bool" where
  "half_closed kb \<longleftrightarrow>
     (\<forall>a b. a < length kb \<and> b \<le> a \<longrightarrow> eligible (kb ! a) (kb ! b) \<longrightarrow>
        resolve (kb ! a) (kb ! b) \<in> set kb)"

definition bound :: "sentence list \<Rightarrow> nat" where
  "bound kb = card (Pow (cells_of kb)) * Suc (card (empty_counts kb - {0}))"

text \<open>The filter of line 317, and the measure of the closure loop.\<close>

definition retire :: "agent \<Rightarrow> sentence list \<Rightarrow> agent" where
  "retire ag kb = ag\<lparr>knowledge := filter (\<lambda>s. s \<noteq> empty_sentence) kb\<rparr>"

definition closure_measure :: "agent \<Rightarrow> nat \<times> nat" where
  "closure_measure ag =
     (card (cells_of (knowledge ag)), bound (knowledge ag) - card (live (knowledge ag)))"

definition closure_rel :: "(agent \<times> agent) set" where
  "closure_rel = inv_image (less_than <*lex*> less_than) closure_measure"

text \<open>
  The three sentences of the example \<open>{a, b, c} = 1\<close>, \<open>{a, b} = 1\<close>, \<open>{c} = 0\<close>.
\<close>

definition sABC :: "cell \<Rightarrow> cell \<Rightarrow> cell \<Rightarrow> sentence" where
  "sABC a b c = \<lparr>cells = {a, b, c}, count = 1\<rparr>"

definition sAB :: "cell \<Rightarrow> cell \<Rightarrow> sentence" where
  "sAB a b = \<lparr>cells = {a, b}, count = 1\<rparr>"

definition sC :: "cell \<Rightarrow> sentence" where
  "sC c = \<lparr>cells = {c}, count = 0\<rparr>"

text \<open>
  The agents of the examples: one that knows \<open>{(0,0), (0,1), (0,2)} = 1\<close> and
  \<open>{(0,0), (0,1)} = 1\<close>, before and after the closure loop; and a 4 by 4 agent after
  \<open>add_knowledge((0, 0), 1)\<close>, before and after \<open>add_knowledge((0, 1), 2)\<close>.
\<close>

definition example_agent :: agent where
  "example_agent =
     \<lparr>height = 3, width = 3, moves_made = {}, mines = {}, safes = {},
      knowledge = [sABC (0, 0) (0, 1) (0, 2), sAB (0, 0) (0, 1)]\<rparr>"

definition example_agent_closed :: agent where
  "example_agent_closed =
     \<lparr>height = 3, width = 3, moves_made = {}, mines = {}, safes = {(0, 2)},
      knowledge = [sAB (0, 0) (0, 1), sAB (0, 0) (0, 1)]\<rparr>"

definition example_agent4 :: agent where
  "example_agent4 =
     \<lparr>height = 4, width = 4, moves_made = {(0, 0)}, mines = {}, safes = {(0, 0)},
      knowledge = [\<lparr>cells = {(0, 1), (1, 0), (1, 1)}, count = 1\<rparr>]\<rparr>"

definition example_agent4_after :: agent where
  "example_agent4_after =
     \<lparr>height = 4, width = 4, moves_made = {(0, 0), (0, 1)}, mines = {},
      safes = {(0, 0), (0, 1)},
      knowledge = [\<lparr>cells = {(1, 0), (1, 1)}, count = 1\<rparr>,
                   \<lparr>cells = {(0, 2), (1, 0), (1, 1), (1, 2)}, count = 2\<rparr>,
                   \<lparr>cells = {(0, 2), (1, 2)}, count = 1\<rparr>]\<rparr>"

section \<open>Which assertion can fail where\<close>

text \<open>The closure loop can only stop at the assertions of lines 270, 280 and 307.\<close>

lemma neighbor_step_no_assert:
  assumes "height ag \<le> 8"
  shows "\<exists>acc'. neighbor_step ag cell c acc = Inr acc'"
  using assms by (auto simp: neighbor_step_def)

lemma neighbor_loop_no_assert:
  assumes "height ag \<le> 8"
  shows "\<exists>acc'. neighbor_loop ag cell cs acc = Inr acc'"
proof (induction cs arbitrary: acc)
  case Nil
  show ?case by simp
next
  case (Cons c cs)
  obtain acc1 where "neighbor_step ag cell c acc = Inr acc1"
    using neighbor_step_no_assert[OF assms] by blast
  then show ?case using Cons.IH[of acc1] by simp
qed

lemma deduce_sentence_error:
  "deduce_sentence i st = Inl e \<Longrightarrow> e \<in> closure_errors"
  by (auto simp: deduce_sentence_def Let_def closure_errors_def split: option.splits if_splits)

lemma deduce_loop_error:
  "deduce_loop i st = Inl e \<Longrightarrow> e \<in> closure_errors"
proof (induction i st rule: deduce_loop.induct)
  case (1 i st)
  show ?case
  proof (cases "deduce_sentence i st")
    case (Inl e')
    with 1 show ?thesis
      by (subst (asm) deduce_loop.simps) (auto dest: deduce_sentence_error split: if_splits)
  next
    case (Inr st')
    with 1 show ?thesis by (subst (asm) (2) deduce_loop.simps) (auto split: if_splits)
  qed
qed

lemma subset_pair_error:
  "subset_pair s1 s2 st = Inl e \<Longrightarrow> e \<in> closure_errors"
  by (auto simp: subset_pair_def resolve_def Let_def closure_errors_def split: if_splits)

lemma subset_inner_error:
  "subset_inner s1 j st = Inl e \<Longrightarrow> e \<in> closure_errors"
proof (induction s1 j st rule: subset_inner.induct)
  case (1 s1 j st)
  show ?case
  proof (cases "subset_pair s1 (fst st ! j) st")
    case (Inl e')
    with 1 show ?thesis
      by (subst (asm) subset_inner.simps) (auto dest: subset_pair_error split: if_splits)
  next
    case (Inr st')
    with 1 show ?thesis by (subst (asm) (2) subset_inner.simps) (auto split: if_splits)
  qed
qed

lemma subset_outer_error:
  assumes "subset_outer i st = Some (Inl e)"
  shows "e \<in> closure_errors"
proof -
  have "\<forall>e. r = Inl e \<longrightarrow> e \<in> closure_errors" if "subset_outer i st = Some r" for r
  proof (rule subset_outer.raw_induct[where P = "\<lambda>i st r. \<forall>e. r = Inl e \<longrightarrow> e \<in> closure_errors", OF _ that], goal_cases)
    case (1 rec i st r)
    then show ?case
      by (auto dest: subset_inner_error split: if_splits sum.splits)
  qed
  with assms show ?thesis by blast
qed

lemma closure_error:
  assumes "closure ag ch = Some (Inl e)"
  shows "e \<in> closure_errors"
proof -
  have "\<forall>e. r = Inl e \<longrightarrow> e \<in> closure_errors" if "closure ag ch = Some r" for r
  proof (rule closure.raw_induct[where P = "\<lambda>ag ch r. \<forall>e. r = Inl e \<longrightarrow> e \<in> closure_errors", OF _ that], goal_cases)
    case (1 rec ag ch r)
    then show ?case
      by (auto dest: deduce_loop_error subset_outer_error split: if_splits sum.splits option.splits)
  qed
  with assms show ?thesis by blast
qed

section \<open>The subset loops\<close>

subsection \<open>What one inner loop does\<close>

lemma subset_pair_not_eligible:
  "\<not> eligible s1 s2 \<Longrightarrow> subset_pair s1 s2 st = Inr st"
  by (auto simp: subset_pair_def eligible_def)

lemma subset_pair_eligible:
  "eligible s1 s2 \<Longrightarrow>
   subset_pair s1 s2 (kb, ch) =
     (if resolve s1 s2 \<in> set kb then Inr (kb, ch)
      else if cells (resolve s1 s2) = {} then Inl AssertNewSentenceEmpty
      else Inr (kb @ [resolve s1 s2], True))"
  by (auto simp: subset_pair_def eligible_def Let_def)

lemma subset_pair_result:
  assumes "subset_pair s1 s2 (kb, ch) = Inr (kb', ch')"
  shows "(eligible s1 s2 \<longrightarrow> resolve s1 s2 \<in> set kb') \<and>
         ((kb' = kb \<and> ch' = ch) \<or>
          (kb' = kb @ [resolve s1 s2] \<and> resolve s1 s2 \<notin> set kb \<and> eligible s1 s2 \<and>
           cells (resolve s1 s2) \<noteq> {} \<and> ch'))"
proof (cases "eligible s1 s2")
  case True
  with assms show ?thesis
    by (auto simp: subset_pair_eligible split: if_splits)
next
  case False
  with assms show ?thesis
    by (auto simp: subset_pair_not_eligible)
qed

lemma cells_of_append: "cells_of (kb @ ext) = cells_of kb \<union> cells_of ext"
  by (auto simp: cells_of_def)

lemma cells_resolve_subset: "b \<in> set kb \<Longrightarrow> cells (resolve s1 b) \<subseteq> cells_of kb"
  by (auto simp: resolve_def cells_of_def)

lemma subset_inner_result:
  assumes "subset_inner s1 j st = Inr st'"
  shows "\<exists>ext. fst st' = fst st @ ext \<and> inner_ext s1 (fst st) ext \<and>
           snd st' = (snd st \<or> ext \<noteq> []) \<and>
           (\<forall>k. j \<le> k \<and> k < length (fst st') \<longrightarrow> eligible s1 (fst st' ! k) \<longrightarrow>
                 resolve s1 (fst st' ! k) \<in> set (fst st'))"
  using assms
proof (induction s1 j st arbitrary: st' rule: subset_inner.induct)
  case (1 s1 j st)
  obtain kb ch where st: "st = (kb, ch)" by (cases st)
  show ?case
  proof (cases "j < length kb")
    case False
    with "1.prems" st have "st' = st" by (simp add: subset_inner.simps)
    with False st show ?thesis by (auto simp: inner_ext_def)
  next
    case True
    with "1.prems" st obtain st1 where
      p: "subset_pair s1 (kb ! j) (kb, ch) = Inr st1" and
      r: "subset_inner s1 (Suc j) st1 = Inr st'"
      by (subst (asm) subset_inner.simps) (auto split: sum.splits)
    obtain kb1 ch1 where st1: "st1 = (kb1, ch1)" by (cases st1)
    from "1.IH"[of st1 st'] True st p r
    obtain ext1 where
      e1: "fst st' = kb1 @ ext1" and
      e2: "inner_ext s1 kb1 ext1" and
      e3: "snd st' = (ch1 \<or> ext1 \<noteq> [])" and
      e4: "\<forall>k. Suc j \<le> k \<and> k < length (fst st') \<longrightarrow> eligible s1 (fst st' ! k) \<longrightarrow>
                 resolve s1 (fst st' ! k) \<in> set (fst st')"
      using st1 by auto
    from subset_pair_result[OF p[unfolded st1]]
    have el: "eligible s1 (kb ! j) \<longrightarrow> resolve s1 (kb ! j) \<in> set kb1"
      and cs: "(kb1 = kb \<and> ch1 = ch) \<or>
          (kb1 = kb @ [resolve s1 (kb ! j)] \<and> resolve s1 (kb ! j) \<notin> set kb \<and> eligible s1 (kb ! j) \<and>
           cells (resolve s1 (kb ! j)) \<noteq> {} \<and> ch1)"
      by auto
    have pre: "\<exists>ext0. kb1 = kb @ ext0" using cs by auto
    have jth: "fst st' ! j = kb ! j"
      using e1 pre True by (auto simp: nth_append)
    have at_j: "eligible s1 (fst st' ! j) \<longrightarrow> resolve s1 (fst st' ! j) \<in> set (fst st')"
      using el e1 jth by auto
    have all: "\<forall>k. j \<le> k \<and> k < length (fst st') \<longrightarrow> eligible s1 (fst st' ! k) \<longrightarrow>
                 resolve s1 (fst st' ! k) \<in> set (fst st')"
    proof (intro allI impI)
      fix k assume k: "j \<le> k \<and> k < length (fst st')" and "eligible s1 (fst st' ! k)"
      then show "resolve s1 (fst st' ! k) \<in> set (fst st')"
        using at_j e4 by (cases "k = j") auto
    qed
    from cs show ?thesis
    proof
      assume a: "kb1 = kb \<and> ch1 = ch"
      show ?thesis
        using a e1 e2 e3 all st by (intro exI[of _ ext1]) simp
    next
      assume a: "kb1 = kb @ [resolve s1 (kb ! j)] \<and> resolve s1 (kb ! j) \<notin> set kb \<and>
                 eligible s1 (kb ! j) \<and> cells (resolve s1 (kb ! j)) \<noteq> {} \<and> ch1"
      let ?r = "resolve s1 (kb ! j)"
      have mem: "kb ! j \<in> set kb" using True by simp
      have "cells_of kb1 = cells_of kb"
        using a cells_resolve_subset[OF mem, of s1] by (auto simp: cells_of_def)
      then have "inner_ext s1 kb (?r # ext1)"
        using e2 a mem cells_resolve_subset[OF mem, of s1] unfolding inner_ext_def by auto
      then show ?thesis
        using a e1 e3 all st by (intro exI[of _ "?r # ext1"]) simp
    qed
  qed
qed

subsection \<open>The outer loop terminates\<close>

text \<open>
  A pair of two different sentences over the same cells makes the body stop at the
  assertion of line 307, unless the knowledge base holds the empty sentence with the
  difference of their counts. A loop that does not stop there can therefore append, for
  every set of cells, at most as many counts as there are empty sentences, plus one.
\<close>

lemma inner_ext_grows: "inner_ext s1 kb ext \<Longrightarrow> grows kb ext"
  by (auto simp: inner_ext_def grows_def)

lemma grows_cells_of: "grows kb ext \<Longrightarrow> cells_of (kb @ ext) = cells_of kb"
  by (auto simp: grows_def cells_of_def)

lemma grows_empty_counts: "grows kb ext \<Longrightarrow> empty_counts (kb @ ext) = empty_counts kb"
  by (auto simp: grows_def empty_counts_def)

lemma grows_cap: "grows kb ext \<Longrightarrow> cap (kb @ ext) = cap kb"
  by (simp add: cap_def grows_empty_counts)

lemma counts_on_mono: "counts_on kb S \<subseteq> counts_on (kb @ ext) S"
  by (auto simp: counts_on_def)

lemma finite_counts_on: "finite (counts_on kb S)"
  by (simp add: counts_on_def)

lemma finite_empty_counts: "finite (empty_counts kb)"
  by (simp add: empty_counts_def)

lemma resolve_same_cells: "cells b = cells a \<Longrightarrow> resolve a b = \<lparr>cells = {}, count = count b - count a\<rparr>"
  by (simp add: resolve_def)

lemma bad_append:
  assumes "bad kb k" "k < length kb" "grows kb ext"
  shows "bad (kb @ ext) k"
proof -
  from assms(1) obtain b where b: "b \<in> set kb" "cells b = cells (kb ! k)" "cells b \<noteq> {}"
    "b \<noteq> kb ! k" "resolve (kb ! k) b \<notin> set kb"
    by (auto simp: bad_def)
  have "cells (resolve (kb ! k) b) = {}" using b(2) by (simp add: resolve_def)
  then have "resolve (kb ! k) b \<notin> set ext" using assms(3) by (auto simp: grows_def)
  with b assms(2) show ?thesis
    by (auto simp: bad_def nth_append)
qed

lemma bad_inner_fails:
  assumes "bad kb i" "i < length kb"
  shows "subset_inner (kb ! i) 0 (kb, ch) \<noteq> Inr st'"
proof
  assume r: "subset_inner (kb ! i) 0 (kb, ch) = Inr st'"
  from assms(1) obtain b where b: "b \<in> set kb" "cells b = cells (kb ! i)" "cells b \<noteq> {}"
    "b \<noteq> kb ! i" "resolve (kb ! i) b \<notin> set kb"
    by (auto simp: bad_def)
  from subset_inner_result[OF r] obtain ext where
    e: "fst st' = kb @ ext" "inner_ext (kb ! i) kb ext"
    and all: "\<forall>k. k < length (fst st') \<longrightarrow> eligible (kb ! i) (fst st' ! k) \<longrightarrow>
                 resolve (kb ! i) (fst st' ! k) \<in> set (fst st')"
    by auto
  from b(1) obtain k where k: "k < length kb" "kb ! k = b" by (auto simp: in_set_conv_nth)
  then have "fst st' ! k = b" "k < length (fst st')" using e(1) by (auto simp: nth_append)
  moreover have "eligible (kb ! i) b" using b by (auto simp: eligible_def)
  ultimately have "resolve (kb ! i) b \<in> set (fst st')" using all by auto
  moreover have "cells (resolve (kb ! i) b) = {}" using b(2) by (simp add: resolve_def)
  ultimately have "resolve (kb ! i) b \<in> set kb"
    using e by (auto simp: inner_ext_def)
  with b(5) show False by simp
qed

lemma card_shifted_bound:
  fixes E C :: "int set"
  assumes "finite E" "\<forall>c\<in>C. c = c0 \<or> c - c0 \<in> E"
  shows "card C \<le> Suc (card E)"
proof -
  have sub: "C \<subseteq> insert c0 ((\<lambda>e. e + c0) ` E)"
  proof
    fix c assume "c \<in> C"
    with assms(2) have "c = c0 \<or> c - c0 \<in> E" by blast
    then show "c \<in> insert c0 ((\<lambda>e. e + c0) ` E)"
    proof
      assume "c = c0" then show ?thesis by simp
    next
      assume "c - c0 \<in> E"
      then have "(c - c0) + c0 \<in> (\<lambda>e. e + c0) ` E" by (rule imageI)
      then show ?thesis by simp
    qed
  qed
  have fin: "finite (insert c0 ((\<lambda>e. e + c0) ` E))" using assms(1) by simp
  have "card C \<le> card (insert c0 ((\<lambda>e. e + c0) ` E))"
    using card_mono[OF fin sub] .
  also have "\<dots> \<le> Suc (card ((\<lambda>e. e + c0) ` E))"
    by (simp add: card_insert_le_m1 card_insert_if assms(1))
  also have "\<dots> \<le> Suc (card E)"
    using card_image_le[OF assms(1)] by simp
  finally show ?thesis .
qed

lemma slots_decrease:
  assumes fin: "finite (cells_of kb)"
    and g: "grows kb ext"
    and x: "x \<in> set ext"
    and nb: "\<forall>b\<in>set (kb @ ext). cells b = cells x \<longrightarrow> b = x \<or> resolve x b \<in> set (kb @ ext)"
  shows "slots (kb @ ext) < slots kb"
proof -
  let ?kb' = "kb @ ext"
  let ?S = "cells x"
  have S: "?S \<in> Pow (cells_of kb)" "?S \<noteq> {}" using g x by (auto simp: grows_def)
  have xnew: "x \<notin> set kb" using g x by (auto simp: grows_def)
  have bound: "card (counts_on ?kb' ?S) \<le> cap kb"
  proof -
    have "\<forall>c\<in>counts_on ?kb' ?S. c = count x \<or> c - count x \<in> empty_counts ?kb'"
    proof
      fix c assume "c \<in> counts_on ?kb' ?S"
      then obtain b where b: "b \<in> set ?kb'" "cells b = ?S" "c = count b"
        by (auto simp: counts_on_def)
      with nb have "b = x \<or> resolve x b \<in> set ?kb'" by blast
      then show "c = count x \<or> c - count x \<in> empty_counts ?kb'"
      proof
        assume "b = x" with b show ?thesis by simp
      next
        assume "resolve x b \<in> set ?kb'"
        then have "\<lparr>cells = {}, count = count b - count x\<rparr> \<in> set ?kb'"
          using b(2) by (simp add: resolve_same_cells)
        then have "count b - count x \<in> empty_counts ?kb'"
          unfolding empty_counts_def by force
        with b show ?thesis by simp
      qed
    qed
    from card_shifted_bound[OF finite_empty_counts this]
    show ?thesis by (simp add: cap_def grows_empty_counts[OF g])
  qed
  have "count x \<in> counts_on ?kb' ?S" using x by (auto simp: counts_on_def)
  moreover have "count x \<notin> counts_on kb ?S"
  proof
    assume "count x \<in> counts_on kb ?S"
    then obtain b where "b \<in> set kb" "cells b = cells x" "count b = count x"
      by (auto simp: counts_on_def)
    then show False using xnew by (auto dest: sentence.equality)
  qed
  ultimately have "counts_on kb ?S \<subset> counts_on ?kb' ?S"
    using counts_on_mono[of kb ?S ext] by blast
  then have lt: "card (counts_on kb ?S) < card (counts_on ?kb' ?S)"
    by (simp add: psubset_card_mono finite_counts_on)
  have le: "\<forall>T\<in>Pow (cells_of kb). cap kb - card (counts_on ?kb' T) \<le> cap kb - card (counts_on kb T)"
    using counts_on_mono[of kb _ ext] by (auto intro!: diff_le_mono2 card_mono finite_counts_on)
  have "cap kb - card (counts_on ?kb' ?S) < cap kb - card (counts_on kb ?S)"
    using lt bound by linarith
  with S(1) have ex: "\<exists>T\<in>Pow (cells_of kb). cap kb - card (counts_on ?kb' T) < cap kb - card (counts_on kb T)"
    by blast
  have "(\<Sum>T\<in>Pow (cells_of kb). cap kb - card (counts_on ?kb' T)) <
        (\<Sum>T\<in>Pow (cells_of kb). cap kb - card (counts_on kb T))"
    using fin le ex by (intro sum_strict_mono_ex1) auto
  then show ?thesis
    by (simp add: slots_def grows_cells_of[OF g] grows_cap[OF g])
qed

lemma wf_outer_rel: "wf outer_rel"
  unfolding outer_rel_def by (intro wf_inv_image wf_lex_prod wf_less_than)

lemma doom_index_props:
  assumes "doomed kb i"
  shows "i \<le> doom_index kb i \<and> doom_index kb i < length kb \<and> bad kb (doom_index kb i)"
proof -
  from assms have "\<exists>k. i \<le> k \<and> k < length kb \<and> bad kb k" by (simp add: doomed_def)
  then show ?thesis unfolding doom_index_def by (rule LeastI_ex)
qed

lemma outer_step_decreases:
  assumes i: "i < length kb"
    and nb: "\<not> bad kb i"
    and g: "grows kb ext"
    and fin: "finite (cells_of kb)"
  shows "((kb @ ext, Suc i), (kb, i)) \<in> outer_rel"
proof (cases "doomed kb i")
  case True
  let ?k = "doom_index kb i"
  from doom_index_props[OF True] have k: "i \<le> ?k" "?k < length kb" "bad kb ?k" by auto
  with nb have ki: "Suc i \<le> ?k" by (cases "?k = i") auto
  have b': "bad (kb @ ext) ?k" using bad_append[OF k(3) k(2) g] .
  then have d': "doomed (kb @ ext) (Suc i)"
    using ki k(2) by (auto simp: doomed_def)
  have "doom_index (kb @ ext) (Suc i) \<le> ?k"
    unfolding doom_index_def[of "kb @ ext"] using ki k(2) b' by (intro Least_le) auto
  then have "Suc (doom_index (kb @ ext) (Suc i)) - Suc i < Suc ?k - i"
    using k(1) by linarith
  then show ?thesis
    using True d' by (simp add: outer_rel_def outer_measure_def)
next
  case nd: False
  show ?thesis
  proof (cases "doomed (kb @ ext) (Suc i)")
    case True
    with nd show ?thesis by (simp add: outer_rel_def outer_measure_def)
  next
    case nd': False
    show ?thesis
    proof (cases ext)
      case Nil
      with nd nd' i show ?thesis
        by (simp add: outer_rel_def outer_measure_def) 
    next
      case (Cons x ext')
      have xin: "x \<in> set ext" using Cons by simp
      have xk: "(kb @ ext) ! length kb = x" using Cons by (simp add: nth_append)
      have "\<not> bad (kb @ ext) (length kb)"
        using nd' i Cons by (auto simp: doomed_def)
      moreover have "cells x \<noteq> {}" using g xin by (auto simp: grows_def)
      ultimately have "\<forall>b\<in>set (kb @ ext). cells b = cells x \<longrightarrow> b = x \<or> resolve x b \<in> set (kb @ ext)"
        unfolding bad_def xk by blast
      from slots_decrease[OF fin g xin this]
      show ?thesis using nd nd' by (simp add: outer_rel_def outer_measure_def)
    qed
  qed
qed

lemma subset_outer_terminates:
  assumes "finite (cells_of kb)"
  shows "\<exists>r. subset_outer i (kb, ch) = Some r"
  using assms
proof (induction "(kb, i)" arbitrary: kb i ch rule: wf_induct_rule[OF wf_outer_rel, case_names less])
  case less
  show ?case
  proof (cases "i < length kb")
    case False
    then show ?thesis by (subst subset_outer.simps) simp
  next
    case True
    show ?thesis
    proof (cases "subset_inner (kb ! i) 0 (kb, ch)")
      case (Inl e)
      with True show ?thesis by (subst subset_outer.simps) simp
    next
      case (Inr st')
      from subset_inner_result[OF Inr] obtain ext where
        e: "fst st' = kb @ ext" "inner_ext (kb ! i) kb ext" by auto
      have g: "grows kb ext" using e(2) by (rule inner_ext_grows)
      have nb: "\<not> bad kb i" using bad_inner_fails[OF _ True, of ch st'] Inr by blast
      have dec: "((kb @ ext, Suc i), (kb, i)) \<in> outer_rel"
        using outer_step_decreases[OF True nb g less.prems] .
      have fin': "finite (cells_of (kb @ ext))"
        using less.prems grows_cells_of[OF g] by simp
      from less.hyps[OF dec fin', of "snd st'"]
      obtain r where "subset_outer (Suc i) (kb @ ext, snd st') = Some r" by blast
      moreover have "st' = (kb @ ext, snd st')" using e(1) by (cases st') simp
      ultimately show ?thesis
        using True Inr by (subst subset_outer.simps) auto
    qed
  qed
qed

subsection \<open>What one pass of the two loops does\<close>

lemma grows_trans:
  assumes "grows kb e1" "grows (kb @ e1) e2"
  shows "grows kb (e1 @ e2)"
proof -
  have "cells_of (kb @ e1) = cells_of kb" using assms(1) by (rule grows_cells_of)
  with assms show ?thesis by (auto simp: grows_def)
qed

lemma outer_post_base: "\<not> i < length kb \<Longrightarrow> outer_post i kb ch kb ch"
  by (auto simp: outer_post_def grows_def)

lemma outer_post_step:
  assumes i: "i < length kb"
    and inner: "subset_inner (kb ! i) 0 (kb, ch) = Inr (kb1, ch1)"
    and rest: "outer_post (Suc i) kb1 ch1 kb' ch'"
  shows "outer_post i kb ch kb' ch'"
proof -
  from subset_inner_result[OF inner] obtain ext1 where
    e1: "kb1 = kb @ ext1" and ie: "inner_ext (kb ! i) kb ext1" and c1: "ch1 = (ch \<or> ext1 \<noteq> [])"
    and all1: "\<forall>k. k < length kb1 \<longrightarrow> eligible (kb ! i) (kb1 ! k) \<longrightarrow>
                 resolve (kb ! i) (kb1 ! k) \<in> set kb1"
    by auto
  from rest obtain ext2 where
    e2: "kb' = kb1 @ ext2" and g2: "grows kb1 ext2"
    and prov2: "\<forall>x\<in>set ext2. \<exists>a\<in>set kb'. \<exists>b\<in>set kb'. eligible a b \<and> x = resolve a b"
    and c2: "ch' = (ch1 \<or> ext2 \<noteq> [])"
    and all2: "\<forall>a b. Suc i \<le> a \<and> a < length kb' \<and> b < length kb' \<and> (b \<le> a \<or> b < length kb1) \<longrightarrow>
        eligible (kb' ! a) (kb' ! b) \<longrightarrow> resolve (kb' ! a) (kb' ! b) \<in> set kb'"
    by (auto simp: outer_post_def)
  have g1: "grows kb ext1" using ie by (rule inner_ext_grows)
  have g: "grows kb (ext1 @ ext2)" using g1 g2[unfolded e1] by (rule grows_trans)
  have mem_i: "kb ! i \<in> set kb'" using i e1 e2 by simp
  have prov1: "\<forall>x\<in>set ext1. \<exists>a\<in>set kb'. \<exists>b\<in>set kb'. eligible a b \<and> x = resolve a b"
  proof
    fix x assume "x \<in> set ext1"
    with ie obtain b where b: "b \<in> set kb \<union> set ext1" "eligible (kb ! i) b" "x = resolve (kb ! i) b"
      unfolding inner_ext_def by blast
    from b(1) have "b \<in> set kb'" using e1 e2 by auto
    with b(2,3) mem_i show "\<exists>a\<in>set kb'. \<exists>b\<in>set kb'. eligible a b \<and> x = resolve a b"
      by blast
  qed
  have first: "\<exists>ext. kb' = kb @ ext \<and> grows kb ext \<and>
        (\<forall>x\<in>set ext. \<exists>a\<in>set kb'. \<exists>b\<in>set kb'. eligible a b \<and> x = resolve a b) \<and>
        ch' = (ch \<or> ext \<noteq> [])"
  proof (intro exI[of _ "ext1 @ ext2"] conjI)
    show "kb' = kb @ ext1 @ ext2" using e1 e2 by simp
    show "grows kb (ext1 @ ext2)" by (rule g)
    show "\<forall>x\<in>set (ext1 @ ext2). \<exists>a\<in>set kb'. \<exists>b\<in>set kb'. eligible a b \<and> x = resolve a b"
      using prov1 prov2 by (simp add: ball_Un)
    show "ch' = (ch \<or> ext1 @ ext2 \<noteq> [])" using c1 c2 by simp
  qed
  have second: "\<forall>a b. i \<le> a \<and> a < length kb' \<and> b < length kb' \<and> (b \<le> a \<or> b < length kb) \<longrightarrow>
        eligible (kb' ! a) (kb' ! b) \<longrightarrow> resolve (kb' ! a) (kb' ! b) \<in> set kb'"
  proof (intro allI impI)
    fix a b
    assume ab: "i \<le> a \<and> a < length kb' \<and> b < length kb' \<and> (b \<le> a \<or> b < length kb)"
      and el: "eligible (kb' ! a) (kb' ! b)"
    show "resolve (kb' ! a) (kb' ! b) \<in> set kb'"
    proof (cases "a = i")
      case True
      with ab i have b: "b < length kb" by auto
      then have b1: "b < length kb1" using e1 by simp
      have "kb' ! a = kb ! i" using True i e1 e2 by (simp add: nth_append)
      moreover have "kb' ! b = kb1 ! b" using b1 e2 by (simp add: nth_append)
      ultimately have "resolve (kb' ! a) (kb' ! b) \<in> set kb1"
        using all1 b1 el by auto
      then show ?thesis using e2 by simp
    next
      case False
      with ab have "Suc i \<le> a" by auto
      moreover have "b \<le> a \<or> b < length kb1" using ab e1 by auto
      ultimately show ?thesis using all2 ab el by blast
    qed
  qed
  from first second show ?thesis unfolding outer_post_def by blast
qed

lemma subset_outer_result:
  assumes "subset_outer i (kb, ch) = Some (Inr (kb', ch'))"
  shows "outer_post i kb ch kb' ch'"
proof -
  have "\<forall>kb' ch'. r = Inr (kb', ch') \<longrightarrow> outer_post i (fst st) (snd st) kb' ch'"
    if "subset_outer i st = Some r" for st r
  proof (rule subset_outer.raw_induct[where P = "\<lambda>i st r. \<forall>kb' ch'. r = Inr (kb', ch') \<longrightarrow>
            outer_post i (fst st) (snd st) kb' ch'", OF _ that], goal_cases)
    case (1 rec i st r)
    show ?case
    proof (cases "i < length (fst st)")
      case False
      with 1(2) have "r = Inr st" by simp
      then show ?thesis using outer_post_base[OF False, of "snd st"] by auto
    next
      case True
      show ?thesis
      proof (cases "subset_inner (fst st ! i) 0 st")
        case (Inl e)
        with 1(2) True have "r = Inl e" by simp
        then show ?thesis by simp
      next
        case (Inr st1)
        with 1(2) True have rc: "rec (Suc i) st1 = Some r" by simp
        show ?thesis
        proof (intro allI impI)
          fix kb' ch' assume r: "r = Inr (kb', ch')"
          from 1(1)[OF rc] r have post: "outer_post (Suc i) (fst st1) (snd st1) kb' ch'" by blast
          have inner: "subset_inner (fst st ! i) 0 (fst st, snd st) = Inr (fst st1, snd st1)"
            using Inr by simp
          show "outer_post i (fst st) (snd st) kb' ch'"
            using True inner post by (rule outer_post_step)
        qed
      qed
    qed
  qed
  from this[OF assms] show ?thesis by simp
qed

section \<open>The marking loops only remove cells from the sentences\<close>

lemma cells_of_Sentence_mark_mine: "cells (Sentence_mark_mine c s) = cells s - {c}"
  by (auto simp: Sentence_mark_mine_def)

lemma cells_of_Sentence_mark_safe: "cells (Sentence_mark_safe c s) = cells s - {c}"
  by (auto simp: Sentence_mark_safe_def)

lemma cells_of_mark_mine: "cells_of (knowledge (mark_mine c ag)) = cells_of (knowledge ag) - {c}"
  by (auto simp: cells_of_def mark_mine_def cells_of_Sentence_mark_mine)

lemma cells_of_mark_safe: "cells_of (knowledge (mark_safe c ag)) = cells_of (knowledge ag) - {c}"
  by (auto simp: cells_of_def mark_safe_def cells_of_Sentence_mark_safe)

lemma shrinks_refl: "shrinks st st"
  by (simp add: shrinks_def)

lemma shrinks_trans: "shrinks st st1 \<Longrightarrow> shrinks st1 st2 \<Longrightarrow> shrinks st st2"
  unfolding shrinks_def by blast

lemma fold_mine_step_cells:
  "cells_of (knowledge (fst (fold mine_step cs st))) \<subseteq> cells_of (knowledge (fst st)) \<and>
   (fold mine_step cs st = st \<or>
    (snd (fold mine_step cs st) \<and> (\<exists>c\<in>set cs. c \<notin> cells_of (knowledge (fst (fold mine_step cs st))))))"
proof (induction cs arbitrary: st)
  case Nil
  show ?case by simp
next
  case (Cons c cs)
  show ?case
  proof (cases "c \<in> mines (fst st)")
    case True
    then have "mine_step c st = st" by (simp add: mine_step_def)
    with Cons[of st] show ?thesis by auto
  next
    case False
    let ?st1 = "(mark_mine c (fst st), True)"
    from False have ms: "mine_step c st = ?st1" by (simp add: mine_step_def)
    have c1: "cells_of (knowledge (fst ?st1)) = cells_of (knowledge (fst st)) - {c}"
      by (simp add: cells_of_mark_mine)
    from Cons[of ?st1] have
      sub: "cells_of (knowledge (fst (fold mine_step cs ?st1))) \<subseteq> cells_of (knowledge (fst ?st1))"
      and sn: "snd (fold mine_step cs ?st1)"
      by auto
    from sub c1 have "c \<notin> cells_of (knowledge (fst (fold mine_step cs ?st1)))" by auto
    with sub c1 sn ms show ?thesis by auto
  qed
qed

lemma fold_safe_step_cells:
  "cells_of (knowledge (fst (fold safe_step cs st))) \<subseteq> cells_of (knowledge (fst st)) \<and>
   (fold safe_step cs st = st \<or>
    (snd (fold safe_step cs st) \<and> (\<exists>c\<in>set cs. c \<notin> cells_of (knowledge (fst (fold safe_step cs st))))))"
proof (induction cs arbitrary: st)
  case Nil
  show ?case by simp
next
  case (Cons c cs)
  show ?case
  proof (cases "c \<in> safes (fst st)")
    case True
    then have "safe_step c st = st" by (simp add: safe_step_def)
    with Cons[of st] show ?thesis by auto
  next
    case False
    let ?st1 = "(mark_safe c (fst st), True)"
    from False have ms: "safe_step c st = ?st1" by (simp add: safe_step_def)
    have c1: "cells_of (knowledge (fst ?st1)) = cells_of (knowledge (fst st)) - {c}"
      by (simp add: cells_of_mark_safe)
    from Cons[of ?st1] have
      sub: "cells_of (knowledge (fst (fold safe_step cs ?st1))) \<subseteq> cells_of (knowledge (fst ?st1))"
      and sn: "snd (fold safe_step cs ?st1)"
      by auto
    from sub c1 have "c \<notin> cells_of (knowledge (fst (fold safe_step cs ?st1)))" by auto
    with sub c1 sn ms show ?thesis by auto
  qed
qed

lemma nth_cells_subset: "i < length kb \<Longrightarrow> cells (kb ! i) \<subseteq> cells_of kb"
  unfolding cells_of_def using nth_mem[of i kb] by blast

lemma mine_loop_shrinks:
  assumes "i < length (knowledge (fst st))" "finite (cells (knowledge (fst st) ! i))"
  shows "shrinks st (fold mine_step (set_iter (cells (knowledge (fst st) ! i))) st)"
proof -
  let ?m = "cells (knowledge (fst st) ! i)"
  have "set (set_iter ?m) \<subseteq> cells_of (knowledge (fst st))"
    using nth_cells_subset[OF assms(1)] assms(2) by (simp add: set_iter_def)
  with fold_mine_step_cells[of "set_iter ?m" st] show ?thesis
    unfolding shrinks_def by blast
qed

lemma safe_loop_shrinks:
  assumes "i < length (knowledge (fst st))" "finite (cells (knowledge (fst st) ! i))"
  shows "shrinks st (fold safe_step (set_iter (cells (knowledge (fst st) ! i))) st)"
proof -
  let ?m = "cells (knowledge (fst st) ! i)"
  have "set (set_iter ?m) \<subseteq> cells_of (knowledge (fst st))"
    using nth_cells_subset[OF assms(1)] assms(2) by (simp add: set_iter_def)
  with fold_safe_step_cells[of "set_iter ?m" st] show ?thesis
    unfolding shrinks_def by blast
qed

lemma finite_cells_of: "finite (cells_of kb) \<longleftrightarrow> (\<forall>s\<in>set kb. finite (cells s))"
  by (simp add: cells_of_def)

lemma deduce_sentence_shrinks:
  assumes i: "i < length (knowledge (fst st))"
    and fin: "finite (cells_of (knowledge (fst st)))"
    and r: "deduce_sentence i st = Inr st'"
  shows "shrinks st st'"
proof -
  let ?s = "knowledge (fst st) ! i"
  have fs: "finite (cells ?s)" using fin i by (simp add: finite_cells_of)
  define st1 where "st1 = (case known_mines ?s of None \<Rightarrow> st
                           | Some m \<Rightarrow> fold mine_step (set_iter (cells ?s)) st)"
  have s1: "shrinks st st1"
    unfolding st1_def using mine_loop_shrinks[OF i fs] by (auto simp: shrinks_refl split: option.splits)
  have len1: "length (knowledge (fst st1)) = length (knowledge (fst st))"
    unfolding st1_def by (auto simp: length_fold_mine_step split: option.splits)
  have fin1: "finite (cells_of (knowledge (fst st1)))"
    using s1 fin unfolding shrinks_def by (auto intro: finite_subset)
  have i1: "i < length (knowledge (fst st1))" using i len1 by simp
  have fs1: "finite (cells (knowledge (fst st1) ! i))" using fin1 i1 by (simp add: finite_cells_of)
  have "st' = st \<or> st' = st1 \<or>
        st' = fold safe_step (set_iter (cells (knowledge (fst st1) ! i))) st1"
    using r unfolding deduce_sentence_def st1_def
    by (auto simp: Let_def known_mines_def split: if_splits option.splits sum.splits)
  then show ?thesis
    using s1 shrinks_refl[of st] shrinks_trans[OF s1 safe_loop_shrinks[OF i1 fs1]] by auto
qed

lemma deduce_loop_shrinks:
  assumes "finite (cells_of (knowledge (fst st)))" "deduce_loop i st = Inr st'"
  shows "shrinks st st'"
  using assms
proof (induction i st rule: deduce_loop.induct)
  case (1 i st)
  show ?case
  proof (cases "i < length (knowledge (fst st))")
    case False
    with "1.prems"(2) have "st' = st" by (subst (asm) deduce_loop.simps) simp
    then show ?thesis by (simp add: shrinks_refl)
  next
    case True
    with "1.prems"(2) obtain st1 where
      d: "deduce_sentence i st = Inr st1" and l: "deduce_loop (Suc i) st1 = Inr st'"
      by (subst (asm) deduce_loop.simps) (auto split: sum.splits)
    have s1: "shrinks st st1" using deduce_sentence_shrinks[OF True "1.prems"(1) d] .
    then have "finite (cells_of (knowledge (fst st1)))"
      using "1.prems"(1) unfolding shrinks_def by (auto intro: finite_subset)
    from "1.IH"[OF True d this l] have "shrinks st1 st'" .
    with s1 show ?thesis by (rule shrinks_trans)
  qed
qed

section \<open>How many sentences a knowledge base can hold\<close>

lemma card_reflected_bound:
  fixes E C :: "int set"
  assumes "finite E" "\<forall>c\<in>C. c = c0 \<or> c0 - c \<in> E"
  shows "card C \<le> Suc (card E)"
proof -
  have sub: "C \<subseteq> insert c0 ((\<lambda>e. c0 - e) ` E)"
  proof
    fix c assume "c \<in> C"
    with assms(2) have "c = c0 \<or> c0 - c \<in> E" by blast
    then show "c \<in> insert c0 ((\<lambda>e. c0 - e) ` E)"
    proof
      assume "c = c0" then show ?thesis by simp
    next
      assume "c0 - c \<in> E"
      then have "c0 - (c0 - c) \<in> (\<lambda>e. c0 - e) ` E" by (rule imageI)
      then show ?thesis by simp
    qed
  qed
  have fin: "finite (insert c0 ((\<lambda>e. c0 - e) ` E))" using assms(1) by simp
  have "card C \<le> card (insert c0 ((\<lambda>e. c0 - e) ` E))"
    using card_mono[OF fin sub] .
  also have "\<dots> \<le> Suc (card ((\<lambda>e. c0 - e) ` E))"
    by (simp add: card_insert_if assms(1))
  also have "\<dots> \<le> Suc (card E)"
    using card_image_le[OF assms(1)] by simp
  finally show ?thesis .
qed

lemma same_cells_bound:
  assumes hc: "half_closed kb" and S: "S \<noteq> {}"
  shows "card {s \<in> set kb. cells s = S} \<le> Suc (card (empty_counts kb - {0}))"
proof (cases "{s \<in> set kb. cells s = S} = {}")
  case True
  then have "card {s \<in> set kb. cells s = S} = 0" by (simp only: card.empty)
  then show ?thesis by linarith
next
  case False
  let ?V = "{s \<in> set kb. cells s = S}"
  let ?Q = "\<lambda>a. a < length kb \<and> cells (kb ! a) = S"
  from False have "\<exists>a. ?Q a" by (auto simp: in_set_conv_nth)
  then have q0: "?Q (LEAST a. ?Q a)" by (rule LeastI_ex)
  define a0 where "a0 = (LEAST a. ?Q a)"
  have a0: "a0 < length kb" "cells (kb ! a0) = S" using q0 by (auto simp: a0_def)
  have least: "a0 \<le> a" if "?Q a" for a
    unfolding a0_def using that by (rule Least_le)
  have inj: "inj_on count ?V"
    by (rule inj_onI) (auto intro: sentence.equality)
  have "\<forall>c\<in>count ` ?V. c = count (kb ! a0) \<or> count (kb ! a0) - c \<in> empty_counts kb - {0}"
  proof
    fix c assume "c \<in> count ` ?V"
    then obtain s where s: "s \<in> set kb" "cells s = S" "c = count s" by auto
    then obtain a where a: "a < length kb" "kb ! a = s" by (auto simp: in_set_conv_nth)
    with s have le: "a0 \<le> a" using least[of a] by simp
    show "c = count (kb ! a0) \<or> count (kb ! a0) - c \<in> empty_counts kb - {0}"
    proof (cases "s = kb ! a0")
      case True
      with s show ?thesis by simp
    next
      case ne: False
      then have "eligible (kb ! a) (kb ! a0)"
        using a s a0 S by (auto simp: eligible_def)
      with hc a le have "resolve (kb ! a) (kb ! a0) \<in> set kb"
        unfolding half_closed_def by blast
      then have "\<lparr>cells = {}, count = count (kb ! a0) - count s\<rparr> \<in> set kb"
        using a s a0 by (simp add: resolve_def)
      then have "count (kb ! a0) - count s \<in> empty_counts kb"
        unfolding empty_counts_def by force
      moreover have "count (kb ! a0) - count s \<noteq> 0"
      proof
        assume "count (kb ! a0) - count s = 0"
        then have "s = kb ! a0" using s a0 by (auto intro: sentence.equality)
        with ne show False by simp
      qed
      ultimately show ?thesis using s by simp
    qed
  qed
  from card_reflected_bound[OF _ this] finite_empty_counts[of kb]
  have "card (count ` ?V) \<le> Suc (card (empty_counts kb - {0}))" by simp
  then show ?thesis using card_image[OF inj] by simp
qed

lemma live_bound:
  assumes fin: "finite (cells_of kb)" and hc: "half_closed kb"
  shows "card (live kb) \<le> bound kb"
proof -
  let ?I = "Pow (cells_of kb) - {{}}"
  let ?A = "\<lambda>S. {s \<in> set kb. cells s = S}"
  let ?K = "Suc (card (empty_counts kb - {0}))"
  have finI: "finite ?I" using fin by simp
  have "live kb = (\<Union>S\<in>?I. ?A S)"
    by (auto simp: live_def cells_of_def)
  then have "card (live kb) \<le> (\<Sum>S\<in>?I. card (?A S))"
    using card_UN_le[OF finI, of ?A] by simp
  also have "\<dots> \<le> (\<Sum>S\<in>?I. ?K)"
    by (rule sum_mono) (use same_cells_bound[OF hc] in auto)
  also have "\<dots> = card ?I * ?K" by simp
  also have "\<dots> \<le> card (Pow (cells_of kb)) * ?K"
    using fin by (intro mult_le_mono1 card_mono) auto
  finally show ?thesis by (simp add: bound_def)
qed

lemma cells_of_retire: "cells_of (filter (\<lambda>s. s \<noteq> empty_sentence) kb) = cells_of kb"
  by (auto simp: cells_of_def empty_sentence_def)

lemma live_retire: "live (filter (\<lambda>s. s \<noteq> empty_sentence) kb) = live kb"
  by (auto simp: live_def empty_sentence_def)

lemma empty_counts_retire:
  "empty_counts (filter (\<lambda>s. s \<noteq> empty_sentence) kb) - {0} = empty_counts kb - {0}"
proof -
  have "s \<noteq> empty_sentence" if "cells s = {}" "count s \<noteq> 0" for s
    using that by (auto simp: empty_sentence_def)
  then show ?thesis
    by (auto simp: empty_counts_def)
qed

lemma bound_retire: "bound (filter (\<lambda>s. s \<noteq> empty_sentence) kb) = bound kb"
  by (simp add: bound_def cells_of_retire empty_counts_retire)

lemma bound_grows: "grows kb ext \<Longrightarrow> bound (kb @ ext) = bound kb"
  by (simp add: bound_def grows_cells_of grows_empty_counts)

lemma live_grows:
  assumes "grows kb ext"
  shows "card (live (kb @ ext)) = card (live kb) + length ext"
proof -
  have l: "live (kb @ ext) = live kb \<union> set ext"
    using assms by (auto simp: live_def grows_def)
  have d: "live kb \<inter> set ext = {}" using assms by (auto simp: live_def grows_def)
  have "card (live kb \<union> set ext) = card (live kb) + card (set ext)"
    using d by (intro card_Un_disjoint) (auto simp: live_def)
  also have "card (set ext) = length ext"
    using assms by (simp add: grows_def distinct_card)
  finally show ?thesis using l by simp
qed

lemma outer_post_half_closed:
  assumes "outer_post 0 kb ch kb' ch'"
  shows "half_closed kb'"
  unfolding half_closed_def
proof (intro allI impI)
  fix a b assume ab: "a < length kb' \<and> b \<le> a" and el: "eligible (kb' ! a) (kb' ! b)"
  then have "0 \<le> a \<and> a < length kb' \<and> b < length kb' \<and> (b \<le> a \<or> b < length kb)" by auto
  with assms el show "resolve (kb' ! a) (kb' ! b) \<in> set kb'"
    unfolding outer_post_def by blast
qed

section \<open>The closure loop terminates\<close>

lemma wf_closure_rel: "wf closure_rel"
  unfolding closure_rel_def by (intro wf_inv_image wf_lex_prod wf_less_than)

lemma knowledge_retire:
  "knowledge (retire ag kb) = filter (\<lambda>s. s \<noteq> empty_sentence) kb"
  by (simp add: retire_def)

lemma closure_unfold:
  "closure ag True =
     (case deduce_loop 0 (ag, False) of
        Inl e \<Rightarrow> Some (Inl e)
      | Inr st1 \<Rightarrow>
          (case subset_outer 0 (knowledge (fst st1), snd st1) of
             None \<Rightarrow> None
           | Some (Inl e) \<Rightarrow> Some (Inl e)
           | Some (Inr st2) \<Rightarrow> closure (retire (fst st1) (fst st2)) (snd st2)))"
  unfolding retire_def by (subst closure.simps) simp

lemma closure_False: "closure ag False = Some (Inr ag)"
  by (subst closure.simps) simp

lemma pass_decreases:
  assumes fin: "finite (cells_of (knowledge ag))"
    and sh: "shrinks (ag, False) (ag1, ch1)"
    and post: "outer_post 0 (knowledge ag1) ch1 kb2 True"
  shows "(retire ag1 kb2, ag) \<in> closure_rel \<and> finite (cells_of (knowledge (retire ag1 kb2)))"
proof -
  from post obtain ext where
    e: "kb2 = knowledge ag1 @ ext" and g: "grows (knowledge ag1) ext"
    and c: "ch1 \<or> ext \<noteq> []"
    unfolding outer_post_def by auto
  have hc: "half_closed kb2" using post by (rule outer_post_half_closed)
  have c2: "cells_of kb2 = cells_of (knowledge ag1)"
    unfolding e by (rule grows_cells_of[OF g])
  have c3: "cells_of (knowledge (retire ag1 kb2)) = cells_of (knowledge ag1)"
    using c2 by (simp only: knowledge_retire cells_of_retire)
  have sub: "cells_of (knowledge ag1) \<subseteq> cells_of (knowledge ag)"
    using sh by (simp add: shrinks_def)
  have fin1: "finite (cells_of (knowledge ag1))" using sub fin by (rule finite_subset)
  have fin3: "finite (cells_of (knowledge (retire ag1 kb2)))" using fin1 c3 by simp
  have "(closure_measure (retire ag1 kb2), closure_measure ag) \<in> less_than <*lex*> less_than"
  proof (cases "(ag1, ch1) = (ag, False)")
    case False
    with sh have "cells_of (knowledge ag1) \<subset> cells_of (knowledge ag)"
      by (auto simp: shrinks_def)
    then have "card (cells_of (knowledge ag1)) < card (cells_of (knowledge ag))"
      using fin by (intro psubset_card_mono)
    then show ?thesis unfolding closure_measure_def c3 by simp
  next
    case True
    then have ag1: "ag1 = ag" and ch1: "\<not> ch1" by auto
    with c have ne: "ext \<noteq> []" by simp
    have b2: "bound kb2 = bound (knowledge ag)"
      unfolding e using bound_grows[OF g] ag1 by simp
    have b3: "bound (knowledge (retire ag1 kb2)) = bound (knowledge ag)"
      using b2 by (simp only: knowledge_retire bound_retire)
    have l2: "card (live kb2) = card (live (knowledge ag)) + length ext"
      unfolding e using live_grows[OF g] ag1 by simp
    have l3: "card (live (knowledge (retire ag1 kb2))) = card (live (knowledge ag)) + length ext"
      using l2 by (simp only: knowledge_retire live_retire)
    have "finite (cells_of kb2)" using fin1 c2 by simp
    from live_bound[OF this hc] have "card (live kb2) \<le> bound kb2" .
    then have le: "card (live (knowledge ag)) + length ext \<le> bound (knowledge ag)"
      using l2 b2 by simp
    have "length ext > 0" using ne by simp
    with le have "bound (knowledge ag) - (card (live (knowledge ag)) + length ext)
                  < bound (knowledge ag) - card (live (knowledge ag))"
      by linarith
    then show ?thesis
      unfolding closure_measure_def c3 b3 l3 by (simp add: ag1)
  qed
  then show ?thesis using fin3 by (simp add: closure_rel_def)
qed

lemma closure_terminates_changed:
  assumes "finite (cells_of (knowledge ag))"
  shows "\<exists>r. closure ag True = Some r"
  using assms
proof (induction ag rule: wf_induct_rule[OF wf_closure_rel, case_names less])
  case (less ag)
  show ?case
  proof (cases "deduce_loop 0 (ag, False)")
    case (Inl e)
    then show ?thesis by (simp add: closure_unfold)
  next
    case (Inr st1)
    obtain ag1 ch1 where st1: "st1 = (ag1, ch1)" by (cases st1)
    have sh: "shrinks (ag, False) (ag1, ch1)"
      using deduce_loop_shrinks[of "(ag, False)" 0 st1] less.prems Inr st1 by simp
    then have fin1: "finite (cells_of (knowledge ag1))"
      using less.prems unfolding shrinks_def by (auto intro: finite_subset)
    from subset_outer_terminates[OF fin1, of 0 ch1]
    obtain r where r: "subset_outer 0 (knowledge ag1, ch1) = Some r" by blast
    show ?thesis
    proof (cases r)
      case (Inl e)
      with r Inr st1 show ?thesis by (simp add: closure_unfold)
    next
      case r2: (Inr st2)
      obtain kb2 ch2 where st2: "st2 = (kb2, ch2)" by (cases st2)
      have eq: "closure ag True = closure (retire ag1 kb2) ch2"
        using r r2 Inr st1 st2 by (simp add: closure_unfold)
      show ?thesis
      proof (cases ch2)
        case False
        with eq show ?thesis by (simp add: closure_False)
      next
        case True
        have post: "outer_post 0 (knowledge ag1) ch1 kb2 True"
          using subset_outer_result[of 0 "knowledge ag1" ch1 kb2 ch2] r r2 st2 True by simp
        from pass_decreases[OF less.prems sh post]
        have "(retire ag1 kb2, ag) \<in> closure_rel" "finite (cells_of (knowledge (retire ag1 kb2)))"
          by auto
        from less.IH[OF this] eq True show ?thesis by simp
      qed
    qed
  qed
qed

lemma closure_terminates:
  assumes "finite (cells_of (knowledge ag))"
  shows "\<exists>r. closure ag ch = Some r"
  using closure_terminates_changed[OF assms] closure_False[of ag] by (cases ch) auto

lemma neighbor_step_cells:
  "neighbor_step ag cell c acc = Inr acc' \<Longrightarrow> fst acc' \<subseteq> insert c (fst acc)"
  by (auto simp: neighbor_step_def split: if_splits)

lemma neighbor_loop_cells:
  "neighbor_loop ag cell cs acc = Inr acc' \<Longrightarrow> fst acc' \<subseteq> fst acc \<union> set cs"
proof (induction cs arbitrary: acc)
  case Nil
  then show ?case by simp
next
  case (Cons c cs)
  then obtain acc1 where a: "neighbor_step ag cell c acc = Inr acc1"
    and b: "neighbor_loop ag cell cs acc1 = Inr acc'"
    by (auto split: sum.splits)
  from Cons.IH[OF b] neighbor_step_cells[OF a] show ?case by auto
qed

lemma finite_cells_new_sentence:
  assumes "finite (cells_of (knowledge ag))" "finite (fst acc)"
  shows "finite (cells_of (knowledge (new_sentence ag acc)))"
  using assms by (simp add: new_sentence_def cells_of_def)

section \<open>The knowledge base when \<open>add_knowledge\<close> returns\<close>

lemma resolve_not_empty_sentence:
  assumes "eligible A B"
  shows "resolve A B \<noteq> empty_sentence"
proof
  assume "resolve A B = empty_sentence"
  then have "cells B - cells A = {}" "count B - count A = 0"
    by (simp_all add: resolve_def empty_sentence_def)
  with assms have "cells A = cells B" "count A = count B"
    by (auto simp: eligible_def)
  then have "A = B" by (auto intro: sentence.equality)
  with assms show False by (simp add: eligible_def)
qed

lemma resolved_retire:
  assumes "resolved kb"
  shows "resolved (filter (\<lambda>s. s \<noteq> empty_sentence) kb)"
  using assms resolve_not_empty_sentence unfolding resolved_def by auto

lemma outer_post_unchanged_resolved:
  assumes "outer_post 0 kb ch kb' False"
  shows "kb' = kb \<and> resolved kb"
proof -
  from assms obtain ext where e: "kb' = kb @ ext" and c: "\<not> (ch \<or> ext \<noteq> [])"
    unfolding outer_post_def by auto
  then have eq: "kb' = kb" by simp
  from assms have all: "\<forall>a b. a < length kb \<and> b < length kb \<longrightarrow>
        eligible (kb ! a) (kb ! b) \<longrightarrow> resolve (kb ! a) (kb ! b) \<in> set kb"
    unfolding outer_post_def eq by auto
  have "resolved kb"
    unfolding resolved_def
  proof (intro ballI impI)
    fix A B assume "A \<in> set kb" "B \<in> set kb" and el: "eligible A B"
    then obtain a b where "a < length kb" "kb ! a = A" "b < length kb" "kb ! b = B"
      by (auto simp: in_set_conv_nth)
    with all el show "resolve A B \<in> set kb" by blast
  qed
  with eq show ?thesis by simp
qed

lemma closure_resolved:
  assumes "closure ag ch = Some (Inr ag')" "\<not> ch \<longrightarrow> resolved (knowledge ag)"
  shows "resolved (knowledge ag')"
proof -
  have "(\<not> ch \<longrightarrow> resolved (knowledge ag)) \<longrightarrow> (\<forall>ag'. r = Inr ag' \<longrightarrow> resolved (knowledge ag'))"
    if "closure ag ch = Some r" for r
  proof (rule closure.raw_induct[where P = "\<lambda>ag ch r. (\<not> ch \<longrightarrow> resolved (knowledge ag)) \<longrightarrow>
            (\<forall>ag'. r = Inr ag' \<longrightarrow> resolved (knowledge ag'))", OF _ that], goal_cases)
    case (1 rec ag ch r)
    show ?case
    proof (cases ch)
      case False
      with 1(2) have "r = Inr ag" by simp
      with False show ?thesis by simp
    next
      case True
      show ?thesis
      proof (cases "deduce_loop 0 (ag, False)")
        case (Inl e)
        with 1(2) True have "r = Inl e" by simp
        then show ?thesis by simp
      next
        case (Inr st1)
        show ?thesis
        proof (cases "subset_outer 0 (knowledge (fst st1), snd st1)")
          case None
          with 1(2) True Inr show ?thesis by simp
        next
          case (Some r2)
          show ?thesis
          proof (cases r2)
            case (Inl e)
            with 1(2) True Inr Some have "r = Inl e" by simp
            then show ?thesis by simp
          next
            case r2: (Inr st2)
            let ?ag3 = "(fst st1)\<lparr>knowledge := filter (\<lambda>s. s \<noteq> empty_sentence) (fst st2)\<rparr>"
            from 1(2) True Inr Some r2 have rc: "rec ?ag3 (snd st2) = Some r" by simp
            have pre: "\<not> snd st2 \<longrightarrow> resolved (knowledge ?ag3)"
            proof
              assume ns: "\<not> snd st2"
              have "subset_outer 0 (knowledge (fst st1), snd st1) = Some (Inr (fst st2, snd st2))"
                using Some r2 by simp
              from subset_outer_result[OF this] ns
              have "outer_post 0 (knowledge (fst st1)) (snd st1) (fst st2) False" by simp
              from outer_post_unchanged_resolved[OF this]
              have "resolved (fst st2)" by simp
              then show "resolved (knowledge ?ag3)"
                using resolved_retire by simp
            qed
            from 1(1)[OF rc] pre show ?thesis by blast
          qed
        qed
      qed
    qed
  qed
  from this[OF assms(1)] assms(2) show ?thesis by blast
qed

lemma add_knowledge_resolved:
  assumes "add_knowledge ag cell cnt = Some (Inr ag')"
  shows "resolved (knowledge ag')"
proof -
  let ?ag2 = "mark_safe cell (ag\<lparr>moves_made := insert cell (moves_made ag)\<rparr>)"
  from assms obtain acc where
    "closure (new_sentence ?ag2 acc) True = Some (Inr ag')"
    by (auto simp: add_knowledge_def Let_def split: sum.splits)
  from closure_resolved[OF this] show ?thesis by simp
qed

section \<open>The order in which a copied set is visited\<close>

lemma Sentence_mark_mine_commute:
  "Sentence_mark_mine a (Sentence_mark_mine b s) = Sentence_mark_mine b (Sentence_mark_mine a s)"
proof (rule sentence.equality)
  show "cells (Sentence_mark_mine a (Sentence_mark_mine b s)) =
        cells (Sentence_mark_mine b (Sentence_mark_mine a s))"
    by (simp add: cells_of_Sentence_mark_mine) blast
  show "count (Sentence_mark_mine a (Sentence_mark_mine b s)) =
        count (Sentence_mark_mine b (Sentence_mark_mine a s))"
    by (auto simp: Sentence_mark_mine_def)
  show "sentence.more (Sentence_mark_mine a (Sentence_mark_mine b s)) =
        sentence.more (Sentence_mark_mine b (Sentence_mark_mine a s))"
    by simp
qed

lemma Sentence_mark_safe_commute:
  "Sentence_mark_safe a (Sentence_mark_safe b s) = Sentence_mark_safe b (Sentence_mark_safe a s)"
proof (rule sentence.equality)
  show "cells (Sentence_mark_safe a (Sentence_mark_safe b s)) =
        cells (Sentence_mark_safe b (Sentence_mark_safe a s))"
    by (simp add: cells_of_Sentence_mark_safe) blast
  show "count (Sentence_mark_safe a (Sentence_mark_safe b s)) =
        count (Sentence_mark_safe b (Sentence_mark_safe a s))"
    by (auto simp: Sentence_mark_safe_def)
  show "sentence.more (Sentence_mark_safe a (Sentence_mark_safe b s)) =
        sentence.more (Sentence_mark_safe b (Sentence_mark_safe a s))"
    by simp
qed

lemma mark_mine_commute: "mark_mine a (mark_mine b ag) = mark_mine b (mark_mine a ag)"
  by (simp add: mark_mine_def insert_commute Sentence_mark_mine_commute)

lemma mark_safe_commute: "mark_safe a (mark_safe b ag) = mark_safe b (mark_safe a ag)"
  by (simp add: mark_safe_def insert_commute Sentence_mark_safe_commute)

lemma mine_step_commute: "mine_step a (mine_step b st) = mine_step b (mine_step a st)"
  by (cases "a = b") (auto simp: mine_step_def mark_mine_commute, auto simp: mark_mine_def)

lemma safe_step_commute: "safe_step a (safe_step b st) = safe_step b (safe_step a st)"
  by (cases "a = b") (auto simp: safe_step_def mark_safe_commute, auto simp: mark_safe_def)

lemma fold_front:
  assumes "\<And>a b s. f a (f b s) = f b (f a s)"
  shows "fold f (ys1 @ x # ys2) s = fold f (x # ys1 @ ys2) s"
proof (induction ys1 arbitrary: s)
  case Nil
  show ?case by simp
next
  case (Cons y ys1)
  have "fold f ((y # ys1) @ x # ys2) s = fold f (ys1 @ x # ys2) (f y s)" by simp
  also have "\<dots> = fold f (x # ys1 @ ys2) (f y s)" by (rule Cons.IH)
  also have "\<dots> = fold f (ys1 @ ys2) (f y (f x s))" by (simp add: assms)
  finally show ?case by simp
qed

lemma fold_any_order:
  assumes comm: "\<And>a b s. f a (f b s) = f b (f a s)"
    and "distinct xs" "distinct ys" "set xs = set ys"
  shows "fold f xs s = fold f ys s"
  using assms(2-)
proof (induction xs arbitrary: ys s)
  case Nil
  then show ?case by simp
next
  case (Cons x xs)
  then have "x \<in> set ys" by auto
  then obtain ys1 ys2 where ys: "ys = ys1 @ x # ys2" by (auto dest: split_list)
  with Cons.prems have d: "distinct (ys1 @ ys2)" and s: "set xs = set (ys1 @ ys2)"
    by auto
  have "fold f ys s = fold f (x # ys1 @ ys2) s"
    unfolding ys using comm by (rule fold_front)
  also have "\<dots> = fold f (ys1 @ ys2) (f x s)" by simp
  also have "\<dots> = fold f xs (f x s)"
    using Cons.IH[OF _ d s] Cons.prems(1) by simp
  finally show ?case by simp
qed

lemma mine_loop_any_order:
  assumes "finite A" "distinct xs" "set xs = A"
  shows "fold mine_step xs st = fold mine_step (set_iter A) st"
  using assms by (intro fold_any_order mine_step_commute) (simp_all add: set_iter_def)

lemma safe_loop_any_order:
  assumes "finite A" "distinct xs" "set xs = A"
  shows "fold safe_step xs st = fold safe_step (set_iter A) st"
  using assms by (intro fold_any_order safe_step_commute) (simp_all add: set_iter_def)

section \<open>Passes that change nothing\<close>

lemma deduce_loop_nothing_known:
  assumes "\<forall>s\<in>set (knowledge ag). cells s = {} \<or> (known_mines s = None \<and> known_safes s = None)"
  shows "deduce_loop i (ag, ch) = Inr (ag, ch)"
proof (induction "length (knowledge ag) - i" arbitrary: i)
  case 0
  then show ?case by (subst deduce_loop.simps) simp
next
  case (Suc n)
  then have i: "i < length (knowledge ag)" by simp
  then have "knowledge ag ! i \<in> set (knowledge ag)" by simp
  with assms have "deduce_sentence i (ag, ch) = Inr (ag, ch)"
    by (auto simp: deduce_sentence_def Let_def)
  moreover have "deduce_loop (Suc i) (ag, ch) = Inr (ag, ch)"
    using Suc by (intro Suc.hyps) simp
  ultimately show ?case using i by (subst deduce_loop.simps) simp
qed

lemma subset_inner_unchanged:
  assumes "\<forall>B\<in>set kb. eligible A B \<longrightarrow> resolve A B \<in> set kb"
  shows "subset_inner A j (kb, ch) = Inr (kb, ch)"
proof (induction "length kb - j" arbitrary: j)
  case 0
  then show ?case by (subst subset_inner.simps) simp
next
  case (Suc n)
  then have j: "j < length kb" by simp
  then have m: "kb ! j \<in> set kb" by simp
  have "subset_pair A (kb ! j) (kb, ch) = Inr (kb, ch)"
  proof (cases "eligible A (kb ! j)")
    case True
    with assms m show ?thesis by (simp add: subset_pair_eligible)
  next
    case False
    then show ?thesis by (rule subset_pair_not_eligible)
  qed
  moreover have "subset_inner A (Suc j) (kb, ch) = Inr (kb, ch)"
    using Suc by (intro Suc.hyps) simp
  ultimately show ?case using j by (subst subset_inner.simps) simp
qed

lemma subset_outer_unchanged:
  assumes "resolved kb"
  shows "subset_outer i (kb, ch) = Some (Inr (kb, ch))"
proof (induction "length kb - i" arbitrary: i)
  case 0
  then show ?case by (subst subset_outer.simps) simp
next
  case (Suc n)
  then have i: "i < length kb" by simp
  then have "kb ! i \<in> set kb" by simp
  with assms have "\<forall>B\<in>set kb. eligible (kb ! i) B \<longrightarrow> resolve (kb ! i) B \<in> set kb"
    by (simp add: resolved_def)
  then have "subset_inner (kb ! i) 0 (kb, ch) = Inr (kb, ch)"
    by (rule subset_inner_unchanged)
  moreover have "subset_outer (Suc i) (kb, ch) = Some (Inr (kb, ch))"
    using Suc by (intro Suc.hyps) simp
  ultimately show ?case using i by (subst subset_outer.simps) simp
qed

section \<open>The example of two sentences over three cells\<close>

lemma closure_stable:
  assumes d: "deduce_loop 0 (ag, False) = Inr (ag, False)"
    and "resolved (knowledge ag)"
  shows "closure ag True = Some (Inr (retire ag (knowledge ag)))"
proof -
  have s: "subset_outer 0 (knowledge ag, False) = Some (Inr (knowledge ag, False))"
    using assms(2) by (rule subset_outer_unchanged)
  show ?thesis
    by (simp add: closure_unfold d s closure_False)
qed

lemma deduce_sentence_skip:
  assumes "cells (knowledge (fst st) ! i) = {} \<or>
           (known_mines (knowledge (fst st) ! i) = None \<and> known_safes (knowledge (fst st) ! i) = None)"
  shows "deduce_sentence i st = Inr st"
  using assms by (auto simp: deduce_sentence_def Let_def)

lemma deduce_loop_skip:
  assumes "i < length (knowledge (fst st))"
    and "cells (knowledge (fst st) ! i) = {} \<or>
           (known_mines (knowledge (fst st) ! i) = None \<and> known_safes (knowledge (fst st) ! i) = None)"
  shows "deduce_loop i st = deduce_loop (Suc i) st"
  using assms(1) deduce_sentence_skip[OF assms(2)] by (subst deduce_loop.simps) simp

lemma deduce_loop_end:
  assumes "\<not> i < length (knowledge (fst st))"
  shows "deduce_loop i st = Inr st"
  using assms by (subst deduce_loop.simps) simp

lemma example_facts:
  assumes "a \<noteq> b" "c \<notin> {a, b}"
  shows "known_mines (sABC a b c) = None" "known_safes (sABC a b c) = None"
    "known_mines (sAB a b) = None" "known_safes (sAB a b) = None"
    "known_mines (sC c) = None" "known_safes (sC c) = Some {c}"
    "\<not> eligible (sABC a b c) B \<or> B \<noteq> sAB a b"
    "eligible (sAB a b) (sABC a b c)" "resolve (sAB a b) (sABC a b c) = sC c"
    "eligible (sC c) (sABC a b c)" "resolve (sC c) (sABC a b c) = sAB a b"
    "\<not> eligible (sABC a b c) (sAB a b)" "\<not> eligible (sABC a b c) (sC c)"
    "\<not> eligible (sAB a b) (sC c)" "\<not> eligible (sC c) (sAB a b)"
    "\<not> eligible s s"
    "sC c \<noteq> sABC a b c" "sC c \<noteq> sAB a b" "sAB a b \<noteq> sABC a b c"
    "sABC a b c \<noteq> empty_sentence" "sAB a b \<noteq> empty_sentence" "sC c \<noteq> empty_sentence"
proof -
  have c3: "card {a, b, c} = 3" and c2: "card {a, b} = 2" using assms by auto
  show "known_mines (sABC a b c) = None" "known_safes (sABC a b c) = None"
    "known_mines (sAB a b) = None" "known_safes (sAB a b) = None"
    "known_mines (sC c) = None" "known_safes (sC c) = Some {c}"
    by (simp_all add: known_mines_def known_safes_def sABC_def sAB_def sC_def c3 c2)
  have d1: "{a, b, c} - {a, b} = {c}" using assms by blast
  have d2: "{a, b, c} - {c} = {a, b}" using assms by blast
  have n1: "\<not> {a, b, c} \<subseteq> {a, b}" using assms by blast
  have n2: "\<not> {a, b, c} \<subseteq> {c}" using assms by blast
  have n3: "\<not> {a, b} \<subseteq> {c}" using assms by blast
  have n4: "\<not> {c} \<subseteq> {a, b}" using assms by blast
  have n5: "{a, b} \<noteq> {a, b, c}" "{c} \<noteq> {a, b, c}" "{c} \<noteq> {a, b}" using assms by blast+
  show "\<not> eligible (sABC a b c) B \<or> B \<noteq> sAB a b"
    using n1 by (auto simp: eligible_def sABC_def sAB_def)
  show "eligible (sAB a b) (sABC a b c)" using n5
    by (simp add: eligible_def sABC_def sAB_def)
  show "resolve (sAB a b) (sABC a b c) = sC c"
    by (simp add: resolve_def sABC_def sAB_def sC_def d1)
  show "eligible (sC c) (sABC a b c)" using n5
    by (simp add: eligible_def sABC_def sC_def)
  show "resolve (sC c) (sABC a b c) = sAB a b"
    by (simp add: resolve_def sABC_def sAB_def sC_def d2)
  show "\<not> eligible (sABC a b c) (sAB a b)" using n1
    by (simp add: eligible_def sABC_def sAB_def)
  show "\<not> eligible (sABC a b c) (sC c)" using n2
    by (simp add: eligible_def sABC_def sC_def)
  show "\<not> eligible (sAB a b) (sC c)" using n3
    by (simp add: eligible_def sAB_def sC_def)
  show "\<not> eligible (sC c) (sAB a b)" using n4
    by (simp add: eligible_def sAB_def sC_def)
  show "\<not> eligible s s" by (simp add: eligible_def)
  show "sC c \<noteq> sABC a b c" "sC c \<noteq> sAB a b" "sAB a b \<noteq> sABC a b c"
    using n5 by (simp_all add: sABC_def sAB_def sC_def)
  show "sABC a b c \<noteq> empty_sentence" "sAB a b \<noteq> empty_sentence" "sC c \<noteq> empty_sentence"
    by (simp_all add: sABC_def sAB_def sC_def empty_sentence_def)
qed

lemma example_resolved:
  assumes "a \<noteq> b" "c \<notin> {a, b}"
  shows "resolved [sABC a b c, sAB a b, sC c]"
    and "resolved [sAB a b, sAB a b, empty_sentence]"
    and "resolved [sAB a b, sAB a b]"
proof -
  note f = example_facts[OF assms]
  show "resolved [sABC a b c, sAB a b, sC c]"
    unfolding resolved_def using f(8-16) by auto
  have "\<not> eligible empty_sentence B" "\<not> eligible B empty_sentence" for B
    by (simp_all add: eligible_def empty_sentence_def)
  then show "resolved [sAB a b, sAB a b, empty_sentence]" "resolved [sAB a b, sAB a b]"
    unfolding resolved_def using f(16) by auto
qed

lemma example_first_pass:
  assumes "a \<noteq> b" "c \<notin> {a, b}"
  shows "subset_outer 0 ([sABC a b c, sAB a b], ch) =
           Some (Inr ([sABC a b c, sAB a b, sC c], True))"
proof -
  note f = example_facts[OF assms]
  let ?kb0 = "[sABC a b c, sAB a b]"
  let ?kb1 = "[sABC a b c, sAB a b, sC c]"
  have i0: "subset_inner (sABC a b c) 0 (?kb0, ch) = Inr (?kb0, ch)"
    using f(12,16) by (intro subset_inner_unchanged) auto
  have p: "subset_pair (sAB a b) (sABC a b c) (?kb0, ch) = Inr (?kb1, True)"
    using f(8,9,17,18,22) by (simp add: subset_pair_eligible sC_def)
  have r: "subset_inner (sAB a b) (Suc 0) (?kb1, True) = Inr (?kb1, True)"
    using f(8,9,14,16) by (intro subset_inner_unchanged) auto
  have i1: "subset_inner (sAB a b) 0 (?kb0, ch) = Inr (?kb1, True)"
    by (subst subset_inner.simps) (simp add: p r)
  have rest: "subset_outer (Suc (Suc 0)) (?kb1, True) = Some (Inr (?kb1, True))"
    using example_resolved(1)[OF assms] by (rule subset_outer_unchanged)
  have o1: "subset_outer (Suc 0) (?kb0, ch) = Some (Inr (?kb1, True))"
    by (subst subset_outer.simps) (simp add: i1 rest)
  show ?thesis
    by (subst subset_outer.simps) (simp add: i0 o1)
qed

lemma retire_nothing:
  assumes "empty_sentence \<notin> set kb"
  shows "retire ag kb = ag\<lparr>knowledge := kb\<rparr>"
proof -
  have "filter (\<lambda>s. s \<noteq> empty_sentence) kb = kb"
    using assms by (intro filter_True) auto
  then show ?thesis by (simp add: retire_def)
qed

lemma example_run:
  assumes ab: "a \<noteq> b" and c: "c \<notin> {a, b}"
    and kb: "knowledge ag = [sABC a b c, sAB a b]"
  shows "closure ag True =
           Some (Inr (if c \<in> safes ag
                      then ag\<lparr>knowledge := [sABC a b c, sAB a b, sC c]\<rparr>
                      else ag\<lparr>safes := insert c (safes ag), knowledge := [sAB a b, sAB a b]\<rparr>))"
proof -
  note f = example_facts[OF ab c]
  let ?kb1 = "[sABC a b c, sAB a b, sC c]"
  let ?ag1 = "ag\<lparr>knowledge := ?kb1\<rparr>"
  \<comment> \<open>first pass: nothing is known, the subset loops append \<open>{c} = 0\<close>\<close>
  have d0: "deduce_loop 0 (ag, False) = Inr (ag, False)"
    using kb f(1-4) by (intro deduce_loop_nothing_known) auto
  have e1: "empty_sentence \<notin> set ?kb1" using f(20-22) by auto
  have pass1: "closure ag True = closure ?ag1 True"
    using d0 kb example_first_pass[OF ab c, of False] retire_nothing[OF e1, of ag]
    by (simp add: closure_unfold)
  \<comment> \<open>second pass: the marking loop reaches \<open>{c} = 0\<close>\<close>
  have s2: "deduce_sentence 2 (?ag1, False) = Inr (safe_step c (?ag1, False))"
    using f(5,6) by (simp add: deduce_sentence_def Let_def sC_def set_iter_def known_mines_def)
  have d1: "deduce_loop 0 (?ag1, False) = Inr (safe_step c (?ag1, False))"
  proof -
    have "deduce_loop 0 (?ag1, False) = deduce_loop (Suc 0) (?ag1, False)"
      using f(1,2) by (intro deduce_loop_skip) auto
    also have "\<dots> = deduce_loop (Suc (Suc 0)) (?ag1, False)"
      using f(3,4) by (intro deduce_loop_skip) auto
    also have "\<dots> = deduce_loop (Suc (Suc (Suc 0))) (safe_step c (?ag1, False))"
      using s2 by (subst deduce_loop.simps) (simp add: numeral_2_eq_2)
    also have "\<dots> = Inr (safe_step c (?ag1, False))"
      by (intro deduce_loop_end) (simp add: safe_step_def mark_safe_def)
    finally show ?thesis .
  qed
  show ?thesis
  proof (cases "c \<in> safes ag")
    case True
    then have "safe_step c (?ag1, False) = (?ag1, False)" by (simp add: safe_step_def)
    with d1 have "deduce_loop 0 (?ag1, False) = Inr (?ag1, False)" by simp
    from closure_stable[OF this] example_resolved(1)[OF ab c]
    have "closure ?ag1 True = Some (Inr (retire ?ag1 ?kb1))" by simp
    with pass1 True retire_nothing[OF e1, of ?ag1] show ?thesis by simp
  next
    case False
    let ?kb2 = "[sAB a b, sAB a b, empty_sentence]"
    let ?ag2 = "ag\<lparr>safes := insert c (safes ag), knowledge := ?kb2\<rparr>"
    let ?ag3 = "ag\<lparr>safes := insert c (safes ag), knowledge := [sAB a b, sAB a b]\<rparr>"
    have m: "map (Sentence_mark_safe c) ?kb1 = ?kb2"
    proof -
      have "{a, b, c} - {c} = {a, b}" using c by blast
      then show ?thesis using c
        by (simp add: Sentence_mark_safe_def sABC_def sAB_def sC_def empty_sentence_def)
    qed
    have "safe_step c (?ag1, False) = (?ag2, True)"
      using False m by (simp add: safe_step_def mark_safe_def)
    with d1 have d: "deduce_loop 0 (?ag1, False) = Inr (?ag2, True)" by simp
    have o: "subset_outer 0 (?kb2, True) = Some (Inr (?kb2, True))"
      using example_resolved(2)[OF ab c] by (rule subset_outer_unchanged)
    have r: "retire ?ag2 ?kb2 = ?ag3"
      using f(21) by (simp add: retire_def)
    have pass2: "closure ?ag1 True = closure ?ag3 True"
      using d o r by (simp add: closure_unfold)
    have d3: "deduce_loop 0 (?ag3, False) = Inr (?ag3, False)"
      using f(3,4) by (intro deduce_loop_nothing_known) auto
    have e3: "empty_sentence \<notin> set [sAB a b, sAB a b]" using f(21) by auto
    from closure_stable[OF d3] example_resolved(3)[OF ab c]
    have "closure ?ag3 True = Some (Inr (retire ?ag3 [sAB a b, sAB a b]))" by simp
    with pass1 pass2 False retire_nothing[OF e3, of ?ag3] show ?thesis by simp
  qed
qed

section \<open>What every pass of the subset loops covers\<close>

lemma subset_pair_stop:
  "subset_pair s1 s2 st = Inl e \<Longrightarrow> e = AssertNewSentenceEmpty"
  by (auto simp: subset_pair_def Let_def split: if_splits)

lemma subset_inner_stop:
  "subset_inner s1 j st = Inl e \<Longrightarrow> e = AssertNewSentenceEmpty"
proof (induction s1 j st rule: subset_inner.induct)
  case (1 s1 j st)
  show ?case
  proof (cases "subset_pair s1 (fst st ! j) st")
    case (Inl e')
    with 1 show ?thesis
      by (subst (asm) subset_inner.simps) (auto dest: subset_pair_stop split: if_splits)
  next
    case (Inr st')
    with 1 show ?thesis by (subst (asm) (2) subset_inner.simps) (auto split: if_splits)
  qed
qed

lemma subset_outer_stop:
  assumes "subset_outer i st = Some (Inl e)"
  shows "e = AssertNewSentenceEmpty"
proof -
  have "\<forall>e. r = Inl e \<longrightarrow> e = AssertNewSentenceEmpty" if "subset_outer i st = Some r" for r
  proof (rule subset_outer.raw_induct[where P = "\<lambda>i st r. \<forall>e. r = Inl e \<longrightarrow> e = AssertNewSentenceEmpty", OF _ that], goal_cases)
    case (1 rec i st r)
    show ?case
    proof (cases "i < length (fst st)")
      case False
      with 1(2) show ?thesis by auto
    next
      case True
      show ?thesis
      proof (cases "subset_inner (fst st ! i) 0 st")
        case (Inl e')
        with 1(2) True show ?thesis by (auto dest: subset_inner_stop)
      next
        case (Inr st')
        with 1(2) True have "rec (Suc i) st' = Some r" by simp
        from 1(1)[OF this] show ?thesis .
      qed
    qed
  qed
  with assms show ?thesis by blast
qed

lemma pass_coverage:
  assumes "outer_post 0 kb ch kb' ch'" "A \<in> set kb" "B \<in> set kb" "eligible A B"
  shows "resolve A B \<in> set kb'"
proof -
  from assms(1) obtain ext where e: "kb' = kb @ ext"
    unfolding outer_post_def by auto
  from assms(2,3) obtain a b where ab: "a < length kb" "kb ! a = A" "b < length kb" "kb ! b = B"
    by (auto simp: in_set_conv_nth)
  then have "kb' ! a = A" "kb' ! b = B" "a < length kb'" "b < length kb'"
    using e by (simp_all add: nth_append)
  moreover from assms(1) have "\<forall>a b. 0 \<le> a \<and> a < length kb' \<and> b < length kb' \<and> (b \<le> a \<or> b < length kb) \<longrightarrow>
        eligible (kb' ! a) (kb' ! b) \<longrightarrow> resolve (kb' ! a) (kb' ! b) \<in> set kb'"
    unfolding outer_post_def by blast
  ultimately show ?thesis using ab(3) assms(4) by blast
qed

lemma pass_stops:
  assumes fin: "\<forall>s\<in>set kb. finite (cells s)"
    and AB: "A \<in> set kb" "B \<in> set kb" "eligible A B"
    and emp: "cells (resolve A B) = {}" and new: "resolve A B \<notin> set kb"
  shows "subset_outer 0 (kb, ch) = Some (Inl AssertNewSentenceEmpty)"
proof -
  have "finite (cells_of kb)" using fin by (simp add: finite_cells_of)
  from subset_outer_terminates[OF this, of 0 ch]
  obtain r where r: "subset_outer 0 (kb, ch) = Some r" by blast
  show ?thesis
  proof (cases r)
    case (Inl e)
    with r subset_outer_stop[of 0 "(kb, ch)" e] show ?thesis by simp
  next
    case (Inr st')
    obtain kb' ch' where st': "st' = (kb', ch')" by (cases st')
    from r Inr st' have post: "outer_post 0 kb ch kb' ch'"
      by (intro subset_outer_result) simp
    from pass_coverage[OF post AB] have in': "resolve A B \<in> set kb'" .
    from post obtain ext where e: "kb' = kb @ ext" and g: "grows kb ext"
      unfolding outer_post_def by auto
    from g emp have "resolve A B \<notin> set ext" by (auto simp: grows_def)
    with in' e new show ?thesis by simp
  qed
qed

lemma closure_sweep:
  assumes "closure ag True = Some (Inr ag1)"
  shows "\<exists>st1 kb2 ch2.
           deduce_loop 0 (ag, False) = Inr st1 \<and>
           subset_outer 0 (knowledge (fst st1), snd st1) = Some (Inr (kb2, ch2)) \<and>
           closure ((fst st1)\<lparr>knowledge := filter (\<lambda>s. s \<noteq> empty_sentence) kb2\<rparr>) ch2 =
             Some (Inr ag1)"
proof (cases "deduce_loop 0 (ag, False)")
  case (Inl e)
  with assms show ?thesis by (simp add: closure_unfold)
next
  case (Inr st1)
  show ?thesis
  proof (cases "subset_outer 0 (knowledge (fst st1), snd st1)")
    case None
    with assms Inr show ?thesis by (simp add: closure_unfold)
  next
    case (Some r)
    show ?thesis
    proof (cases r)
      case (Inl e)
      with assms Inr Some show ?thesis by (simp add: closure_unfold)
    next
      case r2: (Inr st2)
      obtain kb2 ch2 where st2: "st2 = (kb2, ch2)" by (cases st2)
      from assms Inr Some r2 st2
      have "closure (retire (fst st1) kb2) ch2 = Some (Inr ag1)"
        by (simp add: closure_unfold)
      then have "closure ((fst st1)\<lparr>knowledge := filter (\<lambda>s. s \<noteq> empty_sentence) kb2\<rparr>) ch2 =
             Some (Inr ag1)"
        by (simp add: retire_def)
      with Inr Some r2 st2 show ?thesis by blast
    qed
  qed
qed

lemma pass_appends:
  assumes "subset_outer 0 (kb, ch) = Some (Inr (kb', ch'))"
  shows "\<exists>ext. kb' = kb @ ext \<and> distinct ext \<and> set ext \<inter> set kb = {} \<and>
           ch' = (ch \<or> ext \<noteq> []) \<and>
           (\<forall>x\<in>set ext. \<exists>A'\<in>set kb'. \<exists>B'\<in>set kb'. eligible A' B' \<and> x = resolve A' B') \<and>
           (\<forall>A'\<in>set kb. \<forall>B'\<in>set kb. eligible A' B' \<longrightarrow>
              resolve A' B' \<in> set kb' \<and>
              (resolve A' B' \<in> set ext \<longleftrightarrow> resolve A' B' \<notin> set kb))"
proof -
  from subset_outer_result[OF assms] have post: "outer_post 0 kb ch kb' ch'" .
  then obtain ext where e: "kb' = kb @ ext" and g: "grows kb ext"
    and c: "ch' = (ch \<or> ext \<noteq> [])"
    and p: "\<forall>x\<in>set ext. \<exists>A'\<in>set kb'. \<exists>B'\<in>set kb'. eligible A' B' \<and> x = resolve A' B'"
    unfolding outer_post_def by auto
  from g have d: "distinct ext" and dj: "set ext \<inter> set kb = {}" by (simp_all add: grows_def)
  have cov: "\<forall>A'\<in>set kb. \<forall>B'\<in>set kb. eligible A' B' \<longrightarrow>
              resolve A' B' \<in> set kb' \<and>
              (resolve A' B' \<in> set ext \<longleftrightarrow> resolve A' B' \<notin> set kb)"
  proof (intro ballI impI)
    fix A' B' assume "A' \<in> set kb" "B' \<in> set kb" "eligible A' B'"
    from pass_coverage[OF post this] have "resolve A' B' \<in> set kb'" .
    then show "resolve A' B' \<in> set kb' \<and>
              (resolve A' B' \<in> set ext \<longleftrightarrow> resolve A' B' \<notin> set kb)"
      using e dj by auto
  qed
  from e d dj c p cov show ?thesis by (intro exI[of _ ext]) simp
qed

lemma sweep_appends:
  assumes "closure ag0 True = Some (Inr ag1)"
  shows "\<exists>ag2 ch1 ext ch2.
           deduce_loop 0 (ag0, False) = Inr (ag2, ch1) \<and>
           subset_outer 0 (knowledge ag2, ch1) = Some (Inr (knowledge ag2 @ ext, ch2)) \<and>
           (\<forall>A'\<in>set (knowledge ag2). \<forall>B'\<in>set (knowledge ag2). eligible A' B' \<longrightarrow>
              resolve A' B' \<in> set (knowledge ag2 @ ext) \<and>
              (resolve A' B' \<in> set ext \<longleftrightarrow> resolve A' B' \<notin> set (knowledge ag2))) \<and>
           closure (ag2\<lparr>knowledge := filter (\<lambda>s. s \<noteq> empty_sentence) (knowledge ag2 @ ext)\<rparr>) ch2 =
             Some (Inr ag1)"
proof -
  from closure_sweep[OF assms] obtain st1 kb2 ch2 where
    d: "deduce_loop 0 (ag0, False) = Inr st1"
    and o: "subset_outer 0 (knowledge (fst st1), snd st1) = Some (Inr (kb2, ch2))"
    and r: "closure ((fst st1)\<lparr>knowledge := filter (\<lambda>s. s \<noteq> empty_sentence) kb2\<rparr>) ch2 =
             Some (Inr ag1)"
    by blast
  from pass_appends[OF o] obtain ext where e: "kb2 = knowledge (fst st1) @ ext"
    and cov: "\<forall>A'\<in>set (knowledge (fst st1)). \<forall>B'\<in>set (knowledge (fst st1)). eligible A' B' \<longrightarrow>
              resolve A' B' \<in> set kb2 \<and>
              (resolve A' B' \<in> set ext \<longleftrightarrow> resolve A' B' \<notin> set (knowledge (fst st1)))"
    by blast
  have d': "deduce_loop 0 (ag0, False) = Inr (fst st1, snd st1)" using d by simp
  show ?thesis
    using d' o r cov unfolding e
    by (intro exI[of _ "fst st1"] exI[of _ "snd st1"] exI[of _ ext] exI[of _ ch2] conjI)
qed

lemma set_iter_set: "finite A \<Longrightarrow> set (set_iter A) = A"
  by (simp add: set_iter_def)

section \<open>The claims\<close>

subsection \<open>C1: the cells of the neighbour sentence\<close>

text \<open>
  C1 says that the sentence built by \<open>add_knowledge\<close> holds every undetermined
  neighbour inside the board, also a neighbour in a column from \<open>height\<close> up to
  \<open>width - 1\<close> of a board that is wider than high. The code compares the column with
  \<open>self.height\<close>: on an empty 2 by 3 board with its only mine at \<open>(0, 2)\<close>, revealing
  \<open>(0, 1)\<close> with its true count 1 builds the sentence over \<open>(0, 0)\<close>, \<open>(1, 0)\<close>
  and \<open>(1, 1)\<close> alone; the neighbours \<open>(0, 2)\<close> and \<open>(1, 2)\<close>, which are on the
  board and neither safe nor mine, are left out.
\<close>

theorem C1_neighbour_in_last_column_left_out:
  "add_knowledge (MinesweeperAI 2 3) (0, 1) (nearby_mines 2 3 {(0, 2)} (0, 1)) =
     Some (Inr \<lparr>height = 2, width = 3, moves_made = {(0, 1)}, mines = {}, safes = {(0, 1)},
                knowledge = [\<lparr>cells = {(0, 0), (1, 0), (1, 1)}, count = 1\<rparr>]\<rparr>)"
  by code_simp

subsection \<open>C2: subset resolution\<close>

text \<open>
  C2 as stated says that the sentence resolved from every pair of different, non-empty
  sentences \<open>A\<close>, \<open>B\<close> with the cells of \<open>A\<close> among those of \<open>B\<close> is appended
  whenever it is not in the knowledge base yet. For two sentences over the same cells
  with the counts 1 and 2 the resolved sentence \<open>{} = 1\<close> is not in the knowledge
  base, and it is not appended: the pair stops at the assertion of line 307, and so
  does the closure loop.
\<close>

theorem C2_equal_cells_stop_at_assertion:
  "eligible \<lparr>cells = {(0, 1), (1, 0), (1, 1)}, count = 1\<rparr>
            \<lparr>cells = {(0, 1), (1, 0), (1, 1)}, count = 2\<rparr> \<and>
   resolve \<lparr>cells = {(0, 1), (1, 0), (1, 1)}, count = 1\<rparr>
           \<lparr>cells = {(0, 1), (1, 0), (1, 1)}, count = 2\<rparr>
     \<notin> set [\<lparr>cells = {(0, 1), (1, 0), (1, 1)}, count = 1\<rparr>,
             \<lparr>cells = {(0, 1), (1, 0), (1, 1)}, count = 2\<rparr>] \<and>
   subset_pair \<lparr>cells = {(0, 1), (1, 0), (1, 1)}, count = 1\<rparr>
               \<lparr>cells = {(0, 1), (1, 0), (1, 1)}, count = 2\<rparr>
               ([\<lparr>cells = {(0, 1), (1, 0), (1, 1)}, count = 1\<rparr>,
                 \<lparr>cells = {(0, 1), (1, 0), (1, 1)}, count = 2\<rparr>], False) =
     Inl AssertNewSentenceEmpty \<and>
   closure \<lparr>height = 3, width = 3, moves_made = {(0, 0)}, mines = {}, safes = {(0, 0)},
            knowledge = [\<lparr>cells = {(0, 1), (1, 0), (1, 1)}, count = 1\<rparr>,
                         \<lparr>cells = {(0, 1), (1, 0), (1, 1)}, count = 2\<rparr>]\<rparr> True =
     Some (Inl AssertNewSentenceEmpty)"
  by code_simp

text \<open>
  C2, amended. In every pass of the two subset loops that runs to its end, for every
  ordered pair \<open>A\<close>, \<open>B\<close> of different sentences of the knowledge base, both with
  cells, the cells of \<open>A\<close> among those of \<open>B\<close> (\<open>eligible A B\<close>), the sentence
  \<open>resolve A B\<close> is derived: it is in the knowledge base after the pass, and it is
  among the appended sentences if and only if it was not in the knowledge base before.
  The pass appends nothing else, each sentence once. A pass in which some such pair
  resolves to a sentence without cells that is not in the knowledge base stops at the
  assertion of line 307. The theorem states this for the body of the loops (one pair),
  for one pass, and for the pass inside every sweep of the closure loop, which runs
  on the knowledge base the marking loops have left and hands its result to the next
  sweep; and it states that the knowledge base holds the resolved sentence of every
  such pair when \<open>add_knowledge\<close> returns. In particular \<open>{a, b, c} = 1\<close> and
  \<open>{a, b} = 1\<close> resolve to \<open>{c} = 0\<close>, whose cell is a known safe, and the closure
  loop run on a knowledge base of these two sentences over three different cells
  returns with \<open>c\<close> in \<open>safes\<close>.
\<close>

theorem C2_subset_resolution:
  "(eligible A B \<longrightarrow>
      subset_pair A B (kb, ch) =
        (if resolve A B \<in> set kb then Inr (kb, ch)
         else if cells (resolve A B) = {} then Inl AssertNewSentenceEmpty
         else Inr (kb @ [resolve A B], True))) \<and>
   (\<not> eligible A B \<longrightarrow> subset_pair A B (kb, ch) = Inr (kb, ch)) \<and>
   (subset_outer 0 (kb, ch) = Some (Inr (kb', ch')) \<longrightarrow>
      (\<exists>ext. kb' = kb @ ext \<and> distinct ext \<and> set ext \<inter> set kb = {} \<and>
         ch' = (ch \<or> ext \<noteq> []) \<and>
         (\<forall>x\<in>set ext. \<exists>A'\<in>set kb'. \<exists>B'\<in>set kb'. eligible A' B' \<and> x = resolve A' B') \<and>
         (\<forall>A'\<in>set kb. \<forall>B'\<in>set kb. eligible A' B' \<longrightarrow>
            resolve A' B' \<in> set kb' \<and>
            (resolve A' B' \<in> set ext \<longleftrightarrow> resolve A' B' \<notin> set kb)))) \<and>
   ((\<forall>s\<in>set kb. finite (cells s)) \<and> A \<in> set kb \<and> B \<in> set kb \<and> eligible A B \<and>
    cells (resolve A B) = {} \<and> resolve A B \<notin> set kb \<longrightarrow>
      subset_outer 0 (kb, ch) = Some (Inl AssertNewSentenceEmpty)) \<and>
   (closure ag0 True = Some (Inr ag1) \<longrightarrow>
      (\<exists>ag2 ch1 ext ch2.
         deduce_loop 0 (ag0, False) = Inr (ag2, ch1) \<and>
         subset_outer 0 (knowledge ag2, ch1) = Some (Inr (knowledge ag2 @ ext, ch2)) \<and>
         (\<forall>A'\<in>set (knowledge ag2). \<forall>B'\<in>set (knowledge ag2). eligible A' B' \<longrightarrow>
            resolve A' B' \<in> set (knowledge ag2 @ ext) \<and>
            (resolve A' B' \<in> set ext \<longleftrightarrow> resolve A' B' \<notin> set (knowledge ag2))) \<and>
         closure (ag2\<lparr>knowledge := filter (\<lambda>s. s \<noteq> empty_sentence) (knowledge ag2 @ ext)\<rparr>) ch2 =
           Some (Inr ag1))) \<and>
   (deduce_loop 0 (ag0, False) = Inr (agm, chm) \<and>
    subset_outer 0 (knowledge agm, chm) = Some (Inr (kbm, chn)) \<longrightarrow>
      closure ag0 True =
        closure (agm\<lparr>knowledge := filter (\<lambda>s. s \<noteq> empty_sentence) kbm\<rparr>) chn) \<and>
   (add_knowledge ag cell cnt = Some (Inr ag') \<longrightarrow>
      (\<forall>A'\<in>set (knowledge ag'). \<forall>B'\<in>set (knowledge ag').
         eligible A' B' \<longrightarrow> resolve A' B' \<in> set (knowledge ag'))) \<and>
   (c \<notin> {a, b} \<longrightarrow>
      eligible \<lparr>cells = {a, b}, count = 1\<rparr> \<lparr>cells = {a, b, c}, count = 1\<rparr> \<and>
      resolve \<lparr>cells = {a, b}, count = 1\<rparr> \<lparr>cells = {a, b, c}, count = 1\<rparr> =
        \<lparr>cells = {c}, count = 0\<rparr> \<and>
      known_safes \<lparr>cells = {c}, count = 0\<rparr> = Some {c}) \<and>
   (a \<noteq> b \<and> c \<notin> {a, b} \<and>
    knowledge ag0 = [\<lparr>cells = {a, b, c}, count = 1\<rparr>, \<lparr>cells = {a, b}, count = 1\<rparr>] \<longrightarrow>
      (\<exists>ag3. closure ag0 True = Some (Inr ag3) \<and> c \<in> safes ag3))"
proof (intro conjI impI)
  assume "eligible A B"
  then show "subset_pair A B (kb, ch) =
        (if resolve A B \<in> set kb then Inr (kb, ch)
         else if cells (resolve A B) = {} then Inl AssertNewSentenceEmpty
         else Inr (kb @ [resolve A B], True))"
    by (rule subset_pair_eligible)
next
  assume "\<not> eligible A B"
  then show "subset_pair A B (kb, ch) = Inr (kb, ch)"
    by (rule subset_pair_not_eligible)
next
  assume "subset_outer 0 (kb, ch) = Some (Inr (kb', ch'))"
  then show "\<exists>ext. kb' = kb @ ext \<and> distinct ext \<and> set ext \<inter> set kb = {} \<and>
         ch' = (ch \<or> ext \<noteq> []) \<and>
         (\<forall>x\<in>set ext. \<exists>A'\<in>set kb'. \<exists>B'\<in>set kb'. eligible A' B' \<and> x = resolve A' B') \<and>
         (\<forall>A'\<in>set kb. \<forall>B'\<in>set kb. eligible A' B' \<longrightarrow>
            resolve A' B' \<in> set kb' \<and>
            (resolve A' B' \<in> set ext \<longleftrightarrow> resolve A' B' \<notin> set kb))"
    by (rule pass_appends)
next
  assume h: "(\<forall>s\<in>set kb. finite (cells s)) \<and> A \<in> set kb \<and> B \<in> set kb \<and> eligible A B \<and>
    cells (resolve A B) = {} \<and> resolve A B \<notin> set kb"
  then show "subset_outer 0 (kb, ch) = Some (Inl AssertNewSentenceEmpty)"
    by (intro pass_stops[of kb A B]) simp_all
next
  assume "closure ag0 True = Some (Inr ag1)"
  then show "\<exists>ag2 ch1 ext ch2.
         deduce_loop 0 (ag0, False) = Inr (ag2, ch1) \<and>
         subset_outer 0 (knowledge ag2, ch1) = Some (Inr (knowledge ag2 @ ext, ch2)) \<and>
         (\<forall>A'\<in>set (knowledge ag2). \<forall>B'\<in>set (knowledge ag2). eligible A' B' \<longrightarrow>
            resolve A' B' \<in> set (knowledge ag2 @ ext) \<and>
            (resolve A' B' \<in> set ext \<longleftrightarrow> resolve A' B' \<notin> set (knowledge ag2))) \<and>
         closure (ag2\<lparr>knowledge := filter (\<lambda>s. s \<noteq> empty_sentence) (knowledge ag2 @ ext)\<rparr>) ch2 =
           Some (Inr ag1)"
    by (rule sweep_appends)
next
  assume "deduce_loop 0 (ag0, False) = Inr (agm, chm) \<and>
    subset_outer 0 (knowledge agm, chm) = Some (Inr (kbm, chn))"
  then show "closure ag0 True =
        closure (agm\<lparr>knowledge := filter (\<lambda>s. s \<noteq> empty_sentence) kbm\<rparr>) chn"
    by (simp add: closure_unfold retire_def)
next
  assume "add_knowledge ag cell cnt = Some (Inr ag')"
  from add_knowledge_resolved[OF this]
  show "\<forall>A'\<in>set (knowledge ag'). \<forall>B'\<in>set (knowledge ag').
         eligible A' B' \<longrightarrow> resolve A' B' \<in> set (knowledge ag')"
    by (simp add: resolved_def)
next
  assume c: "c \<notin> {a, b}"
  then have ne: "{a, b} \<noteq> {a, b, c}" by blast
  have sub: "{a, b} \<subseteq> {a, b, c}" by blast
  from ne sub show "eligible \<lparr>cells = {a, b}, count = 1\<rparr> \<lparr>cells = {a, b, c}, count = 1\<rparr>"
    unfolding eligible_def by simp
  from c have "{a, b, c} - {a, b} = {c}" by blast
  then show "resolve \<lparr>cells = {a, b}, count = 1\<rparr> \<lparr>cells = {a, b, c}, count = 1\<rparr> =
        \<lparr>cells = {c}, count = 0\<rparr>"
    unfolding resolve_def by simp
  show "known_safes \<lparr>cells = {c}, count = 0\<rparr> = Some {c}"
    by (simp add: known_safes_def)
next
  assume h: "a \<noteq> b \<and> c \<notin> {a, b} \<and>
    knowledge ag0 = [\<lparr>cells = {a, b, c}, count = 1\<rparr>, \<lparr>cells = {a, b}, count = 1\<rparr>]"
  then have kb: "knowledge ag0 = [sABC a b c, sAB a b]" by (simp add: sABC_def sAB_def)
  from h have ab: "a \<noteq> b" and c: "c \<notin> {a, b}" by simp_all
  show "\<exists>ag3. closure ag0 True = Some (Inr ag3) \<and> c \<in> safes ag3"
    unfolding example_run[OF ab c kb] by (cases "c \<in> safes ag0") simp_all
qed

text \<open>
  C2 at concrete inputs, one for every hypothesis of the theorem. The pair
  \<open>{(0,0), (0,1)} = 1\<close>, \<open>{(0,0), (0,1), (0,2)} = 1\<close> appends \<open>{(0,2)} = 0\<close>, the
  pair in the other order changes nothing, and the pass over the two sentences
  appends \<open>{(0,2)} = 0\<close>; the pass over two sentences with the same cells and the
  counts 1 and 2 stops at the assertion; the closure loop on the first two sentences
  runs that pass in its first sweep and returns with \<open>(0, 2)\<close> in \<open>safes\<close>; and the
  call \<open>add_knowledge((0, 1), 2)\<close> on a 4 by 4 agent returns with a knowledge base
  that holds a pair of this kind and its resolved sentence.
\<close>

theorem C2_subset_resolution_witness:
  "eligible (sAB (0, 0) (0, 1)) (sABC (0, 0) (0, 1) (0, 2)) \<and>
   subset_pair (sAB (0, 0) (0, 1)) (sABC (0, 0) (0, 1) (0, 2))
       ([sABC (0, 0) (0, 1) (0, 2), sAB (0, 0) (0, 1)], False) =
     Inr ([sABC (0, 0) (0, 1) (0, 2), sAB (0, 0) (0, 1), sC (0, 2)], True) \<and>
   \<not> eligible (sABC (0, 0) (0, 1) (0, 2)) (sAB (0, 0) (0, 1)) \<and>
   subset_pair (sABC (0, 0) (0, 1) (0, 2)) (sAB (0, 0) (0, 1))
       ([sABC (0, 0) (0, 1) (0, 2), sAB (0, 0) (0, 1)], False) =
     Inr ([sABC (0, 0) (0, 1) (0, 2), sAB (0, 0) (0, 1)], False) \<and>
   subset_outer 0 ([sABC (0, 0) (0, 1) (0, 2), sAB (0, 0) (0, 1)], False) =
     Some (Inr ([sABC (0, 0) (0, 1) (0, 2), sAB (0, 0) (0, 1), sC (0, 2)], True)) \<and>
   resolve (sAB (0, 0) (0, 1)) (sABC (0, 0) (0, 1) (0, 2)) \<notin>
     set [sABC (0, 0) (0, 1) (0, 2), sAB (0, 0) (0, 1)] \<and>
   (\<exists>ext. [sABC (0, 0) (0, 1) (0, 2), sAB (0, 0) (0, 1), sC (0, 2)] =
            [sABC (0, 0) (0, 1) (0, 2), sAB (0, 0) (0, 1)] @ ext \<and>
          resolve (sAB (0, 0) (0, 1)) (sABC (0, 0) (0, 1) (0, 2)) \<in> set ext) \<and>
   finite (cells \<lparr>cells = {(0, 1), (1, 0), (1, 1)}, count = 1\<rparr>) \<and>
   finite (cells \<lparr>cells = {(0, 1), (1, 0), (1, 1)}, count = 2\<rparr>) \<and>
   eligible \<lparr>cells = {(0, 1), (1, 0), (1, 1)}, count = 1\<rparr>
            \<lparr>cells = {(0, 1), (1, 0), (1, 1)}, count = 2\<rparr> \<and>
   cells (resolve \<lparr>cells = {(0, 1), (1, 0), (1, 1)}, count = 1\<rparr>
                  \<lparr>cells = {(0, 1), (1, 0), (1, 1)}, count = 2\<rparr>) = {} \<and>
   resolve \<lparr>cells = {(0, 1), (1, 0), (1, 1)}, count = 1\<rparr>
           \<lparr>cells = {(0, 1), (1, 0), (1, 1)}, count = 2\<rparr> \<notin>
     set [\<lparr>cells = {(0, 1), (1, 0), (1, 1)}, count = 1\<rparr>,
          \<lparr>cells = {(0, 1), (1, 0), (1, 1)}, count = 2\<rparr>] \<and>
   subset_outer 0 ([\<lparr>cells = {(0, 1), (1, 0), (1, 1)}, count = 1\<rparr>,
                    \<lparr>cells = {(0, 1), (1, 0), (1, 1)}, count = 2\<rparr>], False) =
     Some (Inl AssertNewSentenceEmpty) \<and>
   closure example_agent True = Some (Inr example_agent_closed) \<and>
   (\<exists>ext ch2.
      subset_outer 0 (knowledge example_agent, False) =
        Some (Inr (knowledge example_agent @ ext, ch2)) \<and>
      resolve (sAB (0, 0) (0, 1)) (sABC (0, 0) (0, 1) (0, 2)) \<in> set ext \<and>
      closure (example_agent\<lparr>knowledge :=
                 filter (\<lambda>s. s \<noteq> empty_sentence) (knowledge example_agent @ ext)\<rparr>) ch2 =
        Some (Inr example_agent_closed)) \<and>
   deduce_loop 0 (example_agent, False) = Inr (example_agent, False) \<and>
   closure example_agent True =
     closure (example_agent\<lparr>knowledge :=
                filter (\<lambda>s. s \<noteq> empty_sentence)
                  [sABC (0, 0) (0, 1) (0, 2), sAB (0, 0) (0, 1), sC (0, 2)]\<rparr>) True \<and>
   add_knowledge example_agent4 (0, 1) 2 = Some (Inr example_agent4_after) \<and>
   \<lparr>cells = {(1, 0), (1, 1)}, count = 1\<rparr> \<in> set (knowledge example_agent4_after) \<and>
   \<lparr>cells = {(0, 2), (1, 0), (1, 1), (1, 2)}, count = 2\<rparr> \<in> set (knowledge example_agent4_after) \<and>
   eligible \<lparr>cells = {(1, 0), (1, 1)}, count = 1\<rparr>
            \<lparr>cells = {(0, 2), (1, 0), (1, 1), (1, 2)}, count = 2\<rparr> \<and>
   resolve \<lparr>cells = {(1, 0), (1, 1)}, count = 1\<rparr>
           \<lparr>cells = {(0, 2), (1, 0), (1, 1), (1, 2)}, count = 2\<rparr>
     \<in> set (knowledge example_agent4_after) \<and>
   resolve (sAB (0, 0) (0, 1)) (sABC (0, 0) (0, 1) (0, 2)) = sC (0, 2) \<and>
   known_safes (sC (0, 2)) = Some {(0, 2)} \<and>
   (\<exists>ag3. closure example_agent True = Some (Inr ag3) \<and> (0, 2) \<in> safes ag3)"
proof -
  let ?AB = "sAB (0, 0) (0, 1)"
  let ?ABC = "sABC (0, 0) (0, 1) (0, 2)"
  let ?C = "sC (0, 2)"
  let ?S1 = "\<lparr>cells = {(0, 1), (1, 0), (1, 1)}, count = 1\<rparr> :: sentence"
  let ?S2 = "\<lparr>cells = {(0, 1), (1, 0), (1, 1)}, count = 2\<rparr> :: sentence"
  let ?P1 = "\<lparr>cells = {(1, 0), (1, 1)}, count = 1\<rparr> :: sentence"
  let ?P2 = "\<lparr>cells = {(0, 2), (1, 0), (1, 1), (1, 2)}, count = 2\<rparr> :: sentence"
  let ?kb0 = "[?ABC, ?AB]"
  let ?kb1 = "[?ABC, ?AB, ?C]"
  let ?kbS = "[?S1, ?S2]"
  note i1 = C2_subset_resolution[where A = ?AB and B = ?ABC and kb = ?kb0 and ch = False
      and kb' = ?kb1 and ch' = True and ?ag0.0 = example_agent and ?ag1.0 = example_agent_closed
      and ag = example_agent4 and cell = "(0, 1)" and cnt = 2 and ag' = example_agent4_after
      and a = "(0, 0)" and b = "(0, 1)" and c = "(0, 2)"
      and agm = example_agent and chm = False and kbm = ?kb1 and chn = True]
  note i2 = C2_subset_resolution[where A = ?ABC and B = ?AB and kb = ?kb0 and ch = False
      and kb' = ?kb1 and ch' = True and ?ag0.0 = example_agent and ?ag1.0 = example_agent_closed
      and ag = example_agent4 and cell = "(0, 1)" and cnt = 2 and ag' = example_agent4_after
      and a = "(0, 0)" and b = "(0, 1)" and c = "(0, 2)"
      and agm = example_agent and chm = False and kbm = ?kb1 and chn = True]
  note i3 = C2_subset_resolution[where A = ?S1 and B = ?S2 and kb = ?kbS and ch = False
      and kb' = ?kb1 and ch' = True and ?ag0.0 = example_agent and ?ag1.0 = example_agent_closed
      and ag = example_agent4 and cell = "(0, 1)" and cnt = 2 and ag' = example_agent4_after
      and a = "(0, 0)" and b = "(0, 1)" and c = "(0, 2)"
      and agm = example_agent and chm = False and kbm = ?kb1 and chn = True]
  \<comment> \<open>the hypotheses at these inputs\<close>
  have h1: "eligible ?AB ?ABC" by code_simp
  have h2: "\<not> eligible ?ABC ?AB" by code_simp
  have h3: "subset_outer 0 (?kb0, False) = Some (Inr (?kb1, True))" by code_simp
  have f1: "finite (cells ?S1)" and f2: "finite (cells ?S2)" by simp_all
  have e4: "eligible ?S1 ?S2" by (simp add: eligible_def)
  have r4: "cells (resolve ?S1 ?S2) = {}" by (simp add: resolve_def)
  have n4: "resolve ?S1 ?S2 \<notin> set ?kbS" by (simp add: resolve_def)
  have h4: "(\<forall>s\<in>set ?kbS. finite (cells s)) \<and> ?S1 \<in> set ?kbS \<and> ?S2 \<in> set ?kbS \<and>
      eligible ?S1 ?S2 \<and> cells (resolve ?S1 ?S2) = {} \<and> resolve ?S1 ?S2 \<notin> set ?kbS"
    using e4 r4 n4 by simp
  have h5: "closure example_agent True = Some (Inr example_agent_closed)" by code_simp
  have h6: "add_knowledge example_agent4 (0, 1) 2 = Some (Inr example_agent4_after)"
    by code_simp
  have h7: "((0, 2) :: cell) \<notin> {(0, 0), (0, 1)}" by simp
  have h8: "((0, 0) :: cell) \<noteq> (0, 1) \<and> ((0, 2) :: cell) \<notin> {(0, 0), (0, 1)} \<and>
      knowledge example_agent = [\<lparr>cells = {(0, 0), (0, 1), (0, 2)}, count = 1\<rparr>,
                                 \<lparr>cells = {(0, 0), (0, 1)}, count = 1\<rparr>]"
    by (simp add: example_agent_def sABC_def sAB_def)
  have p12: "eligible ?P1 ?P2" by code_simp
  have m1: "?P1 \<in> set (knowledge example_agent4_after)"
    and m2: "?P2 \<in> set (knowledge example_agent4_after)"
    by (simp_all add: example_agent4_after_def)
  have k0: "knowledge example_agent = ?kb0" by (simp add: example_agent_def)
  have d0: "deduce_loop 0 (example_agent, False) = Inr (example_agent, False)" by code_simp
  have h5b: "deduce_loop 0 (example_agent, False) = Inr (example_agent, False) \<and>
      subset_outer 0 (knowledge example_agent, False) = Some (Inr (?kb1, True))"
    using d0 h3 by (simp add: k0)
  \<comment> \<open>the conjuncts of the theorem at these inputs\<close>
  note c1 = i1[THEN conjunct1, THEN mp, OF h1]
  note c2 = i2[THEN conjunct2, THEN conjunct1, THEN mp, OF h2]
  note c3 = i1[THEN conjunct2, THEN conjunct2, THEN conjunct1, THEN mp, OF h3]
  note c4 = i3[THEN conjunct2, THEN conjunct2, THEN conjunct2, THEN conjunct1, THEN mp, OF h4]
  note c5 = i1[THEN conjunct2, THEN conjunct2, THEN conjunct2, THEN conjunct2, THEN conjunct1,
      THEN mp, OF h5]
  note c5b = i1[THEN conjunct2, THEN conjunct2, THEN conjunct2, THEN conjunct2, THEN conjunct2,
      THEN conjunct1, THEN mp, OF h5b]
  note c6 = i1[THEN conjunct2, THEN conjunct2, THEN conjunct2, THEN conjunct2, THEN conjunct2,
      THEN conjunct2, THEN conjunct1, THEN mp, OF h6]
  note c7 = i1[THEN conjunct2, THEN conjunct2, THEN conjunct2, THEN conjunct2, THEN conjunct2,
      THEN conjunct2, THEN conjunct2, THEN conjunct1, THEN mp, OF h7]
  note c8 = i1[THEN conjunct2, THEN conjunct2, THEN conjunct2, THEN conjunct2, THEN conjunct2,
      THEN conjunct2, THEN conjunct2, THEN conjunct2, THEN mp, OF h8]
  from c7 have r: "resolve ?AB ?ABC = ?C" and ks: "known_safes ?C = Some {(0, 2)}"
    by (simp_all add: sAB_def sABC_def sC_def)
  have nin: "resolve ?AB ?ABC \<notin> set ?kb0"
    unfolding r by (simp add: sAB_def sABC_def sC_def)
  from c1 nin have w1: "subset_pair ?AB ?ABC (?kb0, False) = Inr (?kb1, True)"
    unfolding r by (simp add: sC_def)
  have w3: "\<exists>ext. ?kb1 = ?kb0 @ ext \<and> resolve ?AB ?ABC \<in> set ext"
  proof -
    from c3 obtain ext where e: "?kb1 = ?kb0 @ ext"
      and cov: "\<forall>A'\<in>set ?kb0. \<forall>B'\<in>set ?kb0. eligible A' B' \<longrightarrow>
            resolve A' B' \<in> set ?kb1 \<and>
            (resolve A' B' \<in> set ext \<longleftrightarrow> resolve A' B' \<notin> set ?kb0)"
      by blast
    have "?AB \<in> set ?kb0" "?ABC \<in> set ?kb0" by simp_all
    with cov h1 nin have "resolve ?AB ?ABC \<in> set ext" by blast
    with e show ?thesis by blast
  qed
  have w5: "\<exists>ext ch2.
      subset_outer 0 (knowledge example_agent, False) =
        Some (Inr (knowledge example_agent @ ext, ch2)) \<and>
      resolve ?AB ?ABC \<in> set ext \<and>
      closure (example_agent\<lparr>knowledge :=
                 filter (\<lambda>s. s \<noteq> empty_sentence) (knowledge example_agent @ ext)\<rparr>) ch2 =
        Some (Inr example_agent_closed)"
  proof -
    from c5 obtain ag2 ch1 ext ch2 where
      d: "deduce_loop 0 (example_agent, False) = Inr (ag2, ch1)"
      and o: "subset_outer 0 (knowledge ag2, ch1) = Some (Inr (knowledge ag2 @ ext, ch2))"
      and cov: "\<forall>A'\<in>set (knowledge ag2). \<forall>B'\<in>set (knowledge ag2). eligible A' B' \<longrightarrow>
            resolve A' B' \<in> set (knowledge ag2 @ ext) \<and>
            (resolve A' B' \<in> set ext \<longleftrightarrow> resolve A' B' \<notin> set (knowledge ag2))"
      and cl: "closure (ag2\<lparr>knowledge := filter (\<lambda>s. s \<noteq> empty_sentence) (knowledge ag2 @ ext)\<rparr>) ch2 =
           Some (Inr example_agent_closed)"
      by blast
    from d d0 have ag2: "ag2 = example_agent" and ch1: "ch1 = False" by simp_all
    have "?AB \<in> set (knowledge example_agent)" "?ABC \<in> set (knowledge example_agent)"
      by (simp_all add: k0)
    with cov h1 nin have "resolve ?AB ?ABC \<in> set ext"
      unfolding ag2 k0 by blast
    with o cl show ?thesis unfolding ag2 ch1 by blast
  qed
  from c6 m1 m2 p12 have w6: "resolve ?P1 ?P2 \<in> set (knowledge example_agent4_after)" by blast
  from h1 w1 h2 c2 h3 nin w3 f1 f2 e4 r4 n4 c4 h5 w5 d0 c5b h6 m1 m2 p12 w6 r ks c8 show ?thesis
    by (intro conjI)
qed

subsection \<open>C3: \<open>known_mines\<close> and \<open>known_safes\<close>\<close>

text \<open>
  C3 as stated says that both queries answer "none known" on the empty sentence with
  count 0. The code answers with the empty set there: neither query tests the cells
  for emptiness.
\<close>

theorem C3_empty_sentence_is_not_none:
  "known_mines \<lparr>cells = {}, count = 0\<rparr> \<noteq> None \<and> known_safes \<lparr>cells = {}, count = 0\<rparr> \<noteq> None"
  by (simp add: known_mines_def known_safes_def)

text \<open>
  C3, amended: a sentence whose count is positive and equal to the number of its cells
  has all its cells as known mines; a sentence with count 0 and some cell has all its
  cells as known safes; in every other case both queries return \<open>None\<close>, except for
  the empty sentence with count 0, where both return the empty set.
\<close>

theorem C3_known_mines_known_safes:
  "(int (card (cells s)) = count s \<and> 0 < count s \<longrightarrow> known_mines s = Some (cells s)) \<and>
   (count s = 0 \<and> cells s \<noteq> {} \<longrightarrow> known_safes s = Some (cells s)) \<and>
   (\<not> (int (card (cells s)) = count s \<and> 0 < count s) \<and> \<not> (count s = 0 \<and> cells s \<noteq> {}) \<and>
      s \<noteq> empty_sentence \<longrightarrow> known_mines s = None \<and> known_safes s = None) \<and>
   (s = empty_sentence \<longrightarrow> known_mines s = Some {} \<and> known_safes s = Some {})"
  by (cases s) (auto simp: known_mines_def known_safes_def empty_sentence_def)

text \<open>C3, the amended statement at one sentence for each of its four cases.\<close>

theorem C3_known_mines_known_safes_witness:
  "known_mines \<lparr>cells = {(0, 0)}, count = 1\<rparr> = Some {(0, 0)} \<and>
   known_safes \<lparr>cells = {(0, 0), (0, 1)}, count = 0\<rparr> = Some {(0, 0), (0, 1)} \<and>
   known_mines \<lparr>cells = {(0, 0), (0, 1)}, count = 1\<rparr> = None \<and>
   known_safes \<lparr>cells = {(0, 0), (0, 1)}, count = 1\<rparr> = None \<and>
   known_mines empty_sentence = Some {} \<and> known_safes empty_sentence = Some {}"
  using C3_known_mines_known_safes[of "\<lparr>cells = {(0, 0)}, count = 1\<rparr>"]
        C3_known_mines_known_safes[of "\<lparr>cells = {(0, 0), (0, 1)}, count = 0\<rparr>"]
        C3_known_mines_known_safes[of "\<lparr>cells = {(0, 0), (0, 1)}, count = 1\<rparr>"]
        C3_known_mines_known_safes[of empty_sentence]
  by (simp add: empty_sentence_def)

subsection \<open>C4: \<open>safes\<close> and \<open>mines\<close> stay disjoint\<close>

text \<open>
  C4 says that \<open>safes\<close> and \<open>mines\<close> are disjoint after every call that reports a
  true count. On a 1 by 3 board with its only mine at \<open>(0, 2)\<close>, revealing \<open>(0, 1)\<close>
  (true count 1) and then \<open>(0, 0)\<close> (true count 0) leaves \<open>(0, 0)\<close> in both sets:
  the first call builds the sentence \<open>{(0, 0)} = 1\<close>, since the column test of line
  236 drops \<open>(0, 2)\<close>, and marks \<open>(0, 0)\<close> as a mine.
\<close>

theorem C4_cell_safe_and_mine:
  "add_knowledge_twice (MinesweeperAI 1 3)
       (0, 1) (nearby_mines 1 3 {(0, 2)} (0, 1))
       (0, 0) (nearby_mines 1 3 {(0, 2)} (0, 0)) =
     Some (Inr \<lparr>height = 1, width = 3, moves_made = {(0, 0), (0, 1)}, mines = {(0, 0)},
                safes = {(0, 0), (0, 1)}, knowledge = []\<rparr>)"
  by code_simp

subsection \<open>C5: the closure loop terminates\<close>

text \<open>
  C5 as stated says that \<open>add_knowledge\<close> always returns. On the empty 3 by 3 agent,
  \<open>add_knowledge((0, 0), 1)\<close> returns with one sentence; from that state the call
  \<open>add_knowledge((0, 0), 2)\<close> does not return: the closure loop resolves the two
  sentences over the same cells and stops at the assertion of line 307.
\<close>

theorem C5_call_stops_at_assertion:
  "add_knowledge (MinesweeperAI 3 3) (0, 0) 1 =
     Some (Inr \<lparr>height = 3, width = 3, moves_made = {(0, 0)}, mines = {}, safes = {(0, 0)},
                knowledge = [\<lparr>cells = {(0, 1), (1, 0), (1, 1)}, count = 1\<rparr>]\<rparr>) \<and>
   add_knowledge \<lparr>height = 3, width = 3, moves_made = {(0, 0)}, mines = {}, safes = {(0, 0)},
                  knowledge = [\<lparr>cells = {(0, 1), (1, 0), (1, 1)}, count = 1\<rparr>]\<rparr> (0, 0) 2 =
     Some (Inl AssertNewSentenceEmpty)"
  by code_simp

text \<open>
  C5, amended: for every agent state (the cell sets of its sentences finite, as Python's
  are) and every call, the closure loop terminates: \<open>add_knowledge\<close> never runs
  forever, it returns or it stops at one of its assertions. In the model, a call that
  ran forever would have the value \<open>None\<close>.
\<close>

theorem C5_terminates:
  assumes "\<forall>s\<in>set (knowledge ag). finite (cells s)"
  shows "\<exists>r. add_knowledge ag cell cnt = Some r"
proof -
  let ?ag2 = "mark_safe cell (ag\<lparr>moves_made := insert cell (moves_made ag)\<rparr>)"
  have "cells_of (knowledge ?ag2) = cells_of (knowledge ag) - {cell}"
    by (simp add: cells_of_mark_safe)
  then have fin2: "finite (cells_of (knowledge ?ag2))"
    using assms by (simp add: finite_cells_of)
  show ?thesis
  proof (cases "neighbor_loop ?ag2 cell (neighbor_range cell) ({}, cnt)")
    case (Inl e)
    then show ?thesis by (simp add: add_knowledge_def Let_def)
  next
    case (Inr acc)
    from neighbor_loop_cells[OF Inr] have "finite (fst acc)"
      by (auto intro: finite_subset)
    from closure_terminates[OF finite_cells_new_sentence[OF fin2 this], of True]
    show ?thesis using Inr by (simp add: add_knowledge_def Let_def)
  qed
qed

text \<open>C5 at an agent that holds a sentence, for a call that returns.\<close>

theorem C5_terminates_witness:
  "finite (cells \<lparr>cells = {(0, 1), (1, 0), (1, 1)}, count = 1\<rparr>) \<and>
   (\<exists>r. add_knowledge \<lparr>height = 3, width = 3, moves_made = {(0, 0)}, mines = {},
                          safes = {(0, 0)},
                          knowledge = [\<lparr>cells = {(0, 1), (1, 0), (1, 1)}, count = 1\<rparr>]\<rparr>
            (0, 1) 1 = Some r)"
  using C5_terminates[of "\<lparr>height = 3, width = 3, moves_made = {(0, 0)}, mines = {},
                          safes = {(0, 0)},
                          knowledge = [\<lparr>cells = {(0, 1), (1, 0), (1, 1)}, count = 1\<rparr>]\<rparr>"
                        "(0, 1)" 1]
  by simp

subsection \<open>C6: a second call with the same cell and count\<close>

text \<open>
  C6 says that a repeated call introduces no sentence equal to one already in the
  knowledge base. On the empty 8 by 8 agent, \<open>add_knowledge((0, 0), 1)\<close> leaves one
  sentence; the same call again appends an equal one: line 245 appends the neighbour
  sentence without the membership test that line 306 applies to a resolved sentence.
\<close>

theorem C6_second_call_appends_equal_sentence:
  "add_knowledge (MinesweeperAI 8 8) (0, 0) 1 =
     Some (Inr \<lparr>height = 8, width = 8, moves_made = {(0, 0)}, mines = {}, safes = {(0, 0)},
                knowledge = [\<lparr>cells = {(0, 1), (1, 0), (1, 1)}, count = 1\<rparr>]\<rparr>) \<and>
   add_knowledge_twice (MinesweeperAI 8 8) (0, 0) 1 (0, 0) 1 =
     Some (Inr \<lparr>height = 8, width = 8, moves_made = {(0, 0)}, mines = {}, safes = {(0, 0)},
                knowledge = [\<lparr>cells = {(0, 1), (1, 0), (1, 1)}, count = 1\<rparr>,
                             \<lparr>cells = {(0, 1), (1, 0), (1, 1)}, count = 1\<rparr>]\<rparr>)"
  by code_simp

subsection \<open>C7: the count of a sentence stays between 0 and the number of its cells\<close>

text \<open>
  C7 says that every sentence has a count from 0 to the number of its cells when the
  reported counts are true. On a 1 by 3 board with mines at \<open>(0, 0)\<close> and \<open>(0, 2)\<close>,
  revealing \<open>(0, 1)\<close> with its true count 2 builds the sentence \<open>{(0, 0)} = 2\<close>: the
  column test of line 236 drops \<open>(0, 2)\<close> from the cells and keeps it in the count.
\<close>

theorem C7_count_above_number_of_cells:
  "add_knowledge (MinesweeperAI 1 3) (0, 1) (nearby_mines 1 3 {(0, 0), (0, 2)} (0, 1)) =
     Some (Inr \<lparr>height = 1, width = 3, moves_made = {(0, 1)}, mines = {}, safes = {(0, 1)},
                knowledge = [\<lparr>cells = {(0, 0)}, count = 2\<rparr>]\<rparr>)"
  by code_simp

subsection \<open>C8: no sentence without cells is left\<close>

text \<open>
  C8 says that no sentence with an empty cell set is left when \<open>add_knowledge\<close>
  returns, whatever its count. Line 317 removes the sentences equal to
  \<open>Sentence(set(), 0)\<close> only. On a 2 by 3 board with its only mine at \<open>(0, 2)\<close>,
  revealing \<open>(0, 1)\<close> (true count 1) and then \<open>(0, 0)\<close> (true count 0) returns with
  the sentence \<open>{} = 1\<close> in the knowledge base.
\<close>

theorem C8_empty_sentence_with_count_left:
  "add_knowledge_twice (MinesweeperAI 2 3)
       (0, 1) (nearby_mines 2 3 {(0, 2)} (0, 1))
       (0, 0) (nearby_mines 2 3 {(0, 2)} (0, 0)) =
     Some (Inr \<lparr>height = 2, width = 3, moves_made = {(0, 0), (0, 1)}, mines = {},
                safes = {(0, 0), (0, 1), (1, 0), (1, 1)},
                knowledge = [\<lparr>cells = {}, count = 1\<rparr>]\<rparr>)"
  by code_simp

subsection \<open>C9: \<open>make_safe_move\<close>\<close>

text \<open>
  C9: for every agent (its sets finite, as Python's are) and every random draw,
  \<open>make_safe_move\<close> returns a member of \<open>safes - moves_made\<close> when that set is not
  empty and \<open>None\<close> when it is, and leaves the agent as it was.
\<close>

theorem C9_make_safe_move:
  assumes "finite (safes ag)"
  shows "(safes ag - moves_made ag \<noteq> {} \<longrightarrow>
            (\<exists>c. fst (make_safe_move r ag) = Some c \<and> c \<in> safes ag - moves_made ag)) \<and>
         (safes ag - moves_made ag = {} \<longrightarrow> fst (make_safe_move r ag) = None) \<and>
         snd (make_safe_move r ag) = ag"
proof -
  let ?A = "safes ag - moves_made ag"
  have fin: "finite ?A" using assms by simp
  have "set_iter ?A ! (r mod length (set_iter ?A)) \<in> ?A" if "?A \<noteq> {}"
  proof -
    from that fin have "set_iter ?A \<noteq> []"
      using set_iter_set[OF fin] by auto
    then have "r mod length (set_iter ?A) < length (set_iter ?A)" by simp
    then have "set_iter ?A ! (r mod length (set_iter ?A)) \<in> set (set_iter ?A)"
      by (rule nth_mem)
    then show ?thesis using set_iter_set[OF fin] by simp
  qed
  then show ?thesis by (simp add: make_safe_move_def Let_def)
qed

text \<open>C9 at an agent with one safe move left, and at one with none.\<close>

theorem C9_make_safe_move_witness:
  "finite (safes \<lparr>height = 8, width = 8, moves_made = {(0, 0)}, mines = {},
                  safes = {(0, 0), (0, 1)}, knowledge = []\<rparr>) \<and>
   fst (make_safe_move 5 \<lparr>height = 8, width = 8, moves_made = {(0, 0)}, mines = {},
                           safes = {(0, 0), (0, 1)}, knowledge = []\<rparr>) = Some (0, 1) \<and>
   fst (make_safe_move 5 \<lparr>height = 8, width = 8, moves_made = {(0, 0), (0, 1)}, mines = {},
                           safes = {(0, 0), (0, 1)}, knowledge = []\<rparr>) = None"
  using C9_make_safe_move[of "\<lparr>height = 8, width = 8, moves_made = {(0, 0)}, mines = {},
                  safes = {(0, 0), (0, 1)}, knowledge = []\<rparr>" 5]
        C9_make_safe_move[of "\<lparr>height = 8, width = 8, moves_made = {(0, 0), (0, 1)}, mines = {},
                  safes = {(0, 0), (0, 1)}, knowledge = []\<rparr>" 5]
  by auto

subsection \<open>C10: the assertions on the index 8\<close>

text \<open>
  C10: on an agent with height and width at most 8 no call of \<open>add_knowledge\<close> stops
  at the assertions of lines 237 and 238; and there is an agent of height at least 10
  and a cell on its board for which the call stops at the first of them.
\<close>

theorem C10_index_assertions:
  "(height ag \<le> 8 \<and> width ag \<le> 8 \<longrightarrow>
      add_knowledge ag cell cnt \<noteq> Some (Inl AssertRowIs8) \<and>
      add_knowledge ag cell cnt \<noteq> Some (Inl AssertColIs8)) \<and>
   (\<exists>ag' cell' cnt'. 10 \<le> height ag' \<and>
      0 \<le> fst cell' \<and> fst cell' < height ag' \<and> 0 \<le> snd cell' \<and> snd cell' < width ag' \<and>
      add_knowledge ag' cell' cnt' = Some (Inl AssertRowIs8))"
proof (intro conjI impI)
  assume h: "height ag \<le> 8 \<and> width ag \<le> 8"
  let ?ag2 = "mark_safe cell (ag\<lparr>moves_made := insert cell (moves_made ag)\<rparr>)"
  have "height ?ag2 \<le> 8" using h by (simp add: mark_safe_def)
  from neighbor_loop_no_assert[OF this]
  obtain acc where acc: "neighbor_loop ?ag2 cell (neighbor_range cell) ({}, cnt) = Inr acc"
    by blast
  have eq: "add_knowledge ag cell cnt = closure (new_sentence ?ag2 acc) True"
    using acc by (simp add: add_knowledge_def Let_def)
  show "add_knowledge ag cell cnt \<noteq> Some (Inl AssertRowIs8)"
    using closure_error[of "new_sentence ?ag2 acc" True AssertRowIs8]
    by (auto simp: eq closure_errors_def)
  show "add_knowledge ag cell cnt \<noteq> Some (Inl AssertColIs8)"
    using closure_error[of "new_sentence ?ag2 acc" True AssertColIs8]
    by (auto simp: eq closure_errors_def)
next
  have "add_knowledge (MinesweeperAI 10 10) (8, 0) 0 = Some (Inl AssertRowIs8)"
    by code_simp
  then show "\<exists>ag' cell' cnt'. 10 \<le> height ag' \<and>
      0 \<le> fst cell' \<and> fst cell' < height ag' \<and> 0 \<le> snd cell' \<and> snd cell' < width ag' \<and>
      add_knowledge ag' cell' cnt' = Some (Inl AssertRowIs8)"
    by (intro exI[of _ "MinesweeperAI 10 10"] exI[of _ "(8, 0)"] exI[of _ 0])
       (simp add: MinesweeperAI_def)
qed

text \<open>C10 at the default 8 by 8 agent and its last cell.\<close>

theorem C10_index_assertions_witness:
  "height (MinesweeperAI 8 8) \<le> 8 \<and> width (MinesweeperAI 8 8) \<le> 8 \<and>
   add_knowledge (MinesweeperAI 8 8) (7, 7) 0 \<noteq> Some (Inl AssertRowIs8) \<and>
   add_knowledge (MinesweeperAI 8 8) (7, 7) 0 \<noteq> Some (Inl AssertColIs8)"
proof -
  have h: "height (MinesweeperAI 8 8) \<le> 8 \<and> width (MinesweeperAI 8 8) \<le> 8"
    by (simp add: MinesweeperAI_def)
  from C10_index_assertions[of "MinesweeperAI 8 8" "(7, 7)" 0]
  have "height (MinesweeperAI 8 8) \<le> 8 \<and> width (MinesweeperAI 8 8) \<le> 8 \<longrightarrow>
      add_knowledge (MinesweeperAI 8 8) (7, 7) 0 \<noteq> Some (Inl AssertRowIs8) \<and>
      add_knowledge (MinesweeperAI 8 8) (7, 7) 0 \<noteq> Some (Inl AssertColIs8)"
    by (rule conjunct1)
  with h show ?thesis by blast
qed

end
